theory Spec2Isabelle
  imports Complex_Main "HOL-Library.Word" "HOL-Library.Log_Nat" "HOL-Library.Sublist"
    "HOL-Library.Multiset"
begin

section \<open>atlas.stats: the sampling, differencing and ranking engine\<close>

text \<open>
  A shallow embedding of \<^verbatim>\<open>src/pkg/stats/stats.go\<close>: the structs \<^verbatim>\<open>ProcessInfo\<close>,
  \<^verbatim>\<open>DiskInfo\<close>, \<^verbatim>\<open>SystemStats\<close> and \<^verbatim>\<open>Monitor\<close>, the constructor \<^verbatim>\<open>NewMonitor\<close>, the
  poll \<^verbatim>\<open>GetStats\<close> and the ranking function \<^verbatim>\<open>getTop\<close>. The operating-system
  provider (gopsutil), the clock and Go's \<^verbatim>\<open>float64\<close> arithmetic are outside the
  repository; they are modelled below only as far as the code uses them.
\<close>

subsection \<open>Go's scalar types\<close>

type_synonym uint64 = "64 word"
type_synonym int32 = "32 word"

text \<open>
  A \<^verbatim>\<open>float64\<close> is NaN, an infinity or a finite value, given as the rational number it
  denotes. The two zeros are one value here: they compare equal in Go, and the code
  never divides by a zero. \<open>round_f64\<close> is IEEE 754 rounding to the nearest binary64
  value, ties to even (53 bits of precision, exponents from -1022 to 1023, gradual
  underflow, overflow to an infinity).
\<close>

datatype float64 = NaN | NegInf | Fin rat | PosInf

definition pow2 :: "int \<Rightarrow> rat" where
  "pow2 e = (if 0 \<le> e then 2 ^ nat e else 1 / 2 ^ nat (- e))"

definition flog2 :: "rat \<Rightarrow> int" where
  "flog2 a = (if 1 \<le> a then bitlen \<lfloor>a\<rfloor> - 1 else - bitlen (\<lceil>1 / a\<rceil> - 1))"

definition round_even :: "rat \<Rightarrow> int" where
  "round_even x = (let f = \<lfloor>x\<rfloor>; d = x - of_int f in
     if d < 1 / 2 then f else if 1 / 2 < d then f + 1 else if even f then f else f + 1)"

definition round_f64 :: "rat \<Rightarrow> float64" where
  "round_f64 r = (if r = 0 then Fin 0 else
     let a = \<bar>r\<bar>;
         e = max (flog2 a) (- 1022);
         q = pow2 (e - 52);
         v = of_int (round_even (a / q)) * q
     in if pow2 1024 \<le> v then (if 0 < r then PosInf else NegInf)
        else Fin (if 0 < r then v else - v))"

text \<open>Go's comparisons on \<^verbatim>\<open>float64\<close>: every ordered comparison with NaN is false, and
  \<^verbatim>\<open>!=\<close> with NaN is true.\<close>

fun f64_lt :: "float64 \<Rightarrow> float64 \<Rightarrow> bool" where
  "f64_lt NaN y = False"
| "f64_lt x NaN = False"
| "f64_lt x NegInf = False"
| "f64_lt NegInf y = True"
| "f64_lt PosInf y = False"
| "f64_lt (Fin a) PosInf = True"
| "f64_lt (Fin a) (Fin b) = (a < b)"

definition f64_gt :: "float64 \<Rightarrow> float64 \<Rightarrow> bool" where
  "f64_gt x y = f64_lt y x"

definition f64_eq :: "float64 \<Rightarrow> float64 \<Rightarrow> bool" where
  "f64_eq x y = (x \<noteq> NaN \<and> y \<noteq> NaN \<and> x = y)"

definition f64_ne :: "float64 \<Rightarrow> float64 \<Rightarrow> bool" where
  "f64_ne x y = (\<not> f64_eq x y)"

definition f64_le :: "float64 \<Rightarrow> float64 \<Rightarrow> bool" where
  "f64_le x y = (f64_lt x y \<or> f64_eq x y)"

text \<open>Addition and division, each exact result rounded once.\<close>

fun f64_add :: "float64 \<Rightarrow> float64 \<Rightarrow> float64" where
  "f64_add NaN y = NaN"
| "f64_add x NaN = NaN"
| "f64_add PosInf NegInf = NaN"
| "f64_add NegInf PosInf = NaN"
| "f64_add PosInf y = PosInf"
| "f64_add NegInf y = NegInf"
| "f64_add (Fin a) PosInf = PosInf"
| "f64_add (Fin a) NegInf = NegInf"
| "f64_add (Fin a) (Fin b) = round_f64 (a + b)"

fun f64_div :: "float64 \<Rightarrow> float64 \<Rightarrow> float64" where
  "f64_div NaN y = NaN"
| "f64_div x NaN = NaN"
| "f64_div PosInf PosInf = NaN"
| "f64_div PosInf NegInf = NaN"
| "f64_div NegInf PosInf = NaN"
| "f64_div NegInf NegInf = NaN"
| "f64_div PosInf (Fin b) = (if b < 0 then NegInf else PosInf)"
| "f64_div NegInf (Fin b) = (if b < 0 then PosInf else NegInf)"
| "f64_div (Fin a) PosInf = Fin 0"
| "f64_div (Fin a) NegInf = Fin 0"
| "f64_div (Fin a) (Fin b) =
     (if b = 0 then (if a = 0 then NaN else if 0 < a then PosInf else NegInf)
      else round_f64 (a / b))"

text \<open>The conversions \<^verbatim>\<open>float64(x)\<close> of an integer and \<^verbatim>\<open>uint64(f)\<close> of a float. The
  second discards the fraction; where the truncated value is not a \<^verbatim>\<open>uint64\<close> Go leaves
  the result to the implementation, which is the parameter \<open>oor\<close>.\<close>

definition f64_of_uint64 :: "uint64 \<Rightarrow> float64" where
  "f64_of_uint64 w = round_f64 (of_nat (unat w))"

definition f64_of_int64 :: "int \<Rightarrow> float64" where
  "f64_of_int64 i = round_f64 (of_int i)"

definition uint64_of_f64 :: "(float64 \<Rightarrow> uint64) \<Rightarrow> float64 \<Rightarrow> uint64" where
  "uint64_of_f64 oor f =
     (case f of
        Fin r \<Rightarrow> if - 1 < r \<and> r < 2 ^ 64 then (if r < 0 then 0 else word_of_int \<lfloor>r\<rfloor>)
                 else oor f
      | _ \<Rightarrow> oor f)"

subsection \<open>The clock\<close>

text \<open>
  A \<^verbatim>\<open>time.Time\<close> taken by \<^verbatim>\<open>time.Now()\<close> is its monotonic clock reading in
  nanoseconds. \<^verbatim>\<open>Sub\<close> is the difference, kept inside the range of a \<^verbatim>\<open>Duration\<close>
  (an \<^verbatim>\<open>int64\<close>); \<^verbatim>\<open>Seconds\<close> splits it into whole seconds and nanoseconds with Go's
  truncating division and adds them as floats.
\<close>

type_synonym Time = int

definition maxDuration :: int where
  "maxDuration = 2 ^ 63 - 1"

definition minDuration :: int where
  "minDuration = - (2 ^ 63)"

definition Sub :: "Time \<Rightarrow> Time \<Rightarrow> int" where
  "Sub t u = (let d = t - u in
     if maxDuration < d then maxDuration else if d < minDuration then minDuration else d)"

definition go_quot :: "int \<Rightarrow> int \<Rightarrow> int" where
  "go_quot a b = sgn a * sgn b * (\<bar>a\<bar> div \<bar>b\<bar>)"

definition go_rem :: "int \<Rightarrow> int \<Rightarrow> int" where
  "go_rem a b = a - b * go_quot a b"

definition Second :: int where
  "Second = 1000000000"

definition Seconds :: "int \<Rightarrow> float64" where
  "Seconds d = (let sec = go_quot d Second; nsec = go_rem d Second in
     f64_add (f64_of_int64 sec) (f64_div (f64_of_int64 nsec) (Fin 1000000000)))"

subsection \<open>The structs of the package\<close>

record ProcessInfo =
  PID :: int32
  Name :: string
  CPU :: float64
  Mem :: uint64
  DiskIO :: uint64
  DiskRate :: uint64
  NetConns :: int

record DiskInfo =
  Path :: string
  Total :: uint64
  Used :: uint64
  Free :: uint64
  UsedPercent :: float64

record SystemStats =
  CPUUsage :: float64
  MemoryTotal :: uint64
  MemoryUsed :: uint64
  MemoryFree :: uint64
  Disks :: "DiskInfo list"
  Uptime :: uint64
  Hostname :: string
  OS :: string
  Platform :: string
  NetSent :: uint64
  NetRecv :: uint64
  TopCPU :: "ProcessInfo list"
  TopMem :: "ProcessInfo list"
  TopDisk :: "ProcessInfo list"
  TopNet :: "ProcessInfo list"

text \<open>The engine state. A map of Go is a partial function; \<open>'h\<close> is the type of the
  provider's process handles (\<^verbatim>\<open>*process.Process\<close>).\<close>

record 'h Monitor =
  procs :: "int32 \<rightharpoonup> 'h"
  lastStats :: "int32 \<rightharpoonup> ProcessInfo"
  lastTime :: Time

subsection \<open>The provider\<close>

text \<open>
  The structs of gopsutil, with the fields the code reads, and the answers the provider
  and the clock give during one poll. A call that returns an error is \<open>Inl\<close>. Where the
  code drops the error (\<^verbatim>\<open>name, _ := proc.Name()\<close>) it reads the value returned beside
  it, which is Go's zero value (the empty string, a nil pointer, a nil slice) in
  gopsutil; the functions \<open>stringOr\<close>, \<open>ptrOr\<close> and \<open>sliceOr\<close> say so.
\<close>

datatype error = Err string

record VirtualMemoryStat =
  vm_Total :: uint64
  vm_Used :: uint64
  vm_Free :: uint64

record PartitionStat =
  Device :: string
  Mountpoint :: string

record UsageStat =
  usage_Total :: uint64
  usage_Used :: uint64
  usage_Free :: uint64
  usage_UsedPercent :: float64

record InfoStat =
  info_Uptime :: uint64
  info_Hostname :: string
  info_OS :: string
  info_Platform :: string

record NetIOCountersStat =
  BytesSent :: uint64
  BytesRecv :: uint64

record MemoryInfoStat =
  RSS :: uint64

record ProcIOCountersStat =
  ReadBytes :: uint64
  WriteBytes :: uint64

datatype ConnectionStat = Conn nat

record 'h provider =
  cpu_Percent :: "error + float64 list"
  mem_VirtualMemory :: "error + VirtualMemoryStat"
  disk_Partitions :: "error + PartitionStat list"
  disk_Usage :: "string \<Rightarrow> error + UsageStat"
  host_Info :: "error + InfoStat"
  net_IOCounters :: "error + NetIOCountersStat list"
  process_Pids :: "error + int32 list"
  time_Now :: Time
  process_NewProcess :: "int32 \<Rightarrow> error + 'h"
  proc_Name :: "'h \<Rightarrow> error + string"
  proc_CPUPercent :: "'h \<Rightarrow> error + float64"
  proc_MemoryInfo :: "'h \<Rightarrow> error + MemoryInfoStat"
  proc_IOCounters :: "'h \<Rightarrow> error + ProcIOCountersStat"
  proc_Connections :: "'h \<Rightarrow> error + ConnectionStat list"
  uint64_out_of_range :: "float64 \<Rightarrow> uint64"

definition stringOr :: "error + string \<Rightarrow> string" where
  "stringOr r = (case r of Inl e \<Rightarrow> [] | Inr s \<Rightarrow> s)"

definition ptrOr :: "error + 'a \<Rightarrow> 'a option" where
  "ptrOr r = (case r of Inl e \<Rightarrow> None | Inr v \<Rightarrow> Some v)"

definition sliceOr :: "error + 'a list \<Rightarrow> 'a list" where
  "sliceOr r = (case r of Inl e \<Rightarrow> [] | Inr xs \<Rightarrow> xs)"

subsection \<open>\<^verbatim>\<open>NewMonitor\<close>\<close>

definition NewMonitor :: "Time \<Rightarrow> 'h Monitor" where
  "NewMonitor now = \<lparr>procs = Map.empty, lastStats = Map.empty, lastTime = now\<rparr>"

subsection \<open>\<^verbatim>\<open>getTop\<close>\<close>

text \<open>
  \<^verbatim>\<open>sort.SliceStable\<close> belongs to Go's library, which asks that \<^verbatim>\<open>less\<close> be a strict
  weak order and then returns the one stable sorted arrangement of the slice. The model
  is the insertion sort with that result: each element in turn is swapped towards the
  front while \<^verbatim>\<open>less\<close> puts it before the element in front of it. The sorted prefix is
  kept reversed, its last element first. It is the library's own algorithm on a slice of
  up to 20 elements; on a longer slice the library sorts blocks of 20 in this way and
  merges them, which gives the same sequence whenever \<^verbatim>\<open>less\<close> is a strict weak order
  and may give another one when it is not. The four comparison functions of
  \<^verbatim>\<open>GetStats\<close> are strict weak orders on every list of samples without a NaN (lemmas
  \<open>strictWeakOn_lessMem\<close>, \<open>strictWeakOn_lessDisk\<close>, \<open>strictWeakOn_lessNet\<close> and
  \<open>strictWeakOn_lessCPU\<close>), and the samples of a poll hold no NaN when the provider
  answers none.
\<close>

fun insertLeft :: "('a \<Rightarrow> 'a \<Rightarrow> bool) \<Rightarrow> 'a \<Rightarrow> 'a list \<Rightarrow> 'a list" where
  "insertLeft less_fn x [] = [x]"
| "insertLeft less_fn x (y # ys) =
     (if less_fn x y then y # insertLeft less_fn x ys else x # y # ys)"

definition SliceStable :: "('a \<Rightarrow> 'a \<Rightarrow> bool) \<Rightarrow> 'a list \<Rightarrow> 'a list" where
  "SliceStable less_fn xs = rev (foldl (\<lambda>acc x. insertLeft less_fn x acc) [] xs)"

text \<open>The function itself, on values: the copy makes \<open>sorted\<close> a list of its own. The
  limit is a \<^verbatim>\<open>nat\<close>: every call passes 5.\<close>

definition getTop ::
  "ProcessInfo list \<Rightarrow> (ProcessInfo \<Rightarrow> ProcessInfo \<Rightarrow> bool) \<Rightarrow> nat \<Rightarrow> ProcessInfo list" where
  "getTop ps less_fn limit =
     (if length ps = 0 then []
      else let sorted = SliceStable less_fn ps in
        if limit < length sorted then take limit sorted else sorted)"

text \<open>The four comparison closures of \<^verbatim>\<open>GetStats\<close>, in the order of the source. A
  \<^verbatim>\<open>PID\<close> is a signed 32-bit integer.\<close>

definition lessCPU :: "ProcessInfo \<Rightarrow> ProcessInfo \<Rightarrow> bool" where
  "lessCPU p1 p2 =
     (if f64_ne (CPU p1) (CPU p2) then f64_gt (CPU p1) (CPU p2)
      else sint (PID p1) < sint (PID p2))"

definition lessMem :: "ProcessInfo \<Rightarrow> ProcessInfo \<Rightarrow> bool" where
  "lessMem p1 p2 =
     (if Mem p1 \<noteq> Mem p2 then Mem p2 < Mem p1 else sint (PID p1) < sint (PID p2))"

definition lessDisk :: "ProcessInfo \<Rightarrow> ProcessInfo \<Rightarrow> bool" where
  "lessDisk p1 p2 =
     (if DiskRate p1 \<noteq> DiskRate p2 then DiskRate p2 < DiskRate p1
      else sint (PID p1) < sint (PID p2))"

definition lessNet :: "ProcessInfo \<Rightarrow> ProcessInfo \<Rightarrow> bool" where
  "lessNet p1 p2 =
     (if NetConns p1 \<noteq> NetConns p2 then NetConns p2 < NetConns p1
      else sint (PID p1) < sint (PID p2))"

subsection \<open>\<^verbatim>\<open>getTop\<close> on slices\<close>

text \<open>
  A slice of Go is a window into a backing array, and \<^verbatim>\<open>sort.SliceStable\<close> permutes
  that array in place. To say what \<^verbatim>\<open>getTop\<close> does to the slice its caller passes, the
  function is also given with an explicit store: \<open>arrays\<close> maps an address to the
  array there, \<open>next_free\<close> is the first address not yet in use. \<^verbatim>\<open>make\<close> takes a
  fresh array of zero values, \<^verbatim>\<open>copy\<close> writes into the destination's array.
\<close>

record heap =
  arrays :: "nat \<Rightarrow> ProcessInfo list"
  next_free :: nat

datatype slice = NilSlice | Slice nat nat nat

fun sliceLen :: "slice \<Rightarrow> nat" where
  "sliceLen NilSlice = 0"
| "sliceLen (Slice a off n) = n"

fun elems :: "heap \<Rightarrow> slice \<Rightarrow> ProcessInfo list" where
  "elems h NilSlice = []"
| "elems h (Slice a off n) = take n (drop off (arrays h a))"

fun writeSlice :: "heap \<Rightarrow> slice \<Rightarrow> ProcessInfo list \<Rightarrow> heap" where
  "writeSlice h NilSlice vs = h"
| "writeSlice h (Slice a off n) vs =
     h\<lparr>arrays := (arrays h)
        (a := take off (arrays h a) @ vs @ drop (off + length vs) (arrays h a))\<rparr>"

definition zeroProcessInfo :: ProcessInfo where
  "zeroProcessInfo =
     \<lparr>PID = 0, Name = [], CPU = Fin 0, Mem = 0, DiskIO = 0, DiskRate = 0, NetConns = 0\<rparr>"

definition make :: "heap \<Rightarrow> nat \<Rightarrow> slice \<times> heap" where
  "make h n =
     (Slice (next_free h) 0 n,
      h\<lparr>arrays := (arrays h)(next_free h := replicate n zeroProcessInfo),
        next_free := Suc (next_free h)\<rparr>)"

definition copy :: "heap \<Rightarrow> slice \<Rightarrow> slice \<Rightarrow> heap" where
  "copy h dst src = writeSlice h dst (take (min (sliceLen dst) (sliceLen src)) (elems h src))"

definition sortSliceStable :: "heap \<Rightarrow> slice \<Rightarrow> (ProcessInfo \<Rightarrow> ProcessInfo \<Rightarrow> bool) \<Rightarrow> heap" where
  "sortSliceStable h s less_fn = writeSlice h s (SliceStable less_fn (elems h s))"

fun reslice :: "slice \<Rightarrow> nat \<Rightarrow> slice" where
  "reslice NilSlice limit = NilSlice"
| "reslice (Slice a off n) limit = Slice a off limit"

definition getTopH ::
  "heap \<Rightarrow> slice \<Rightarrow> (ProcessInfo \<Rightarrow> ProcessInfo \<Rightarrow> bool) \<Rightarrow> nat \<Rightarrow> slice \<times> heap" where
  "getTopH h ps less_fn limit =
     (if sliceLen ps = 0 then (NilSlice, h)
      else let (sorted, h1) = make h (sliceLen ps);
               h2 = copy h1 sorted ps;
               h3 = sortSliceStable h2 sorted less_fn in
        if limit < sliceLen sorted then (reslice sorted limit, h3) else (sorted, h3))"

text \<open>A slice is valid in a store when its array is in use and holds its window.\<close>

fun validSlice :: "heap \<Rightarrow> slice \<Rightarrow> bool" where
  "validSlice h NilSlice = True"
| "validSlice h (Slice a off n) = (a < next_free h \<and> off + n \<le> length (arrays h a))"

text \<open>The four calls of \<^verbatim>\<open>GetStats\<close>, one after the other on the same slice.\<close>

definition fourTops :: "heap \<Rightarrow> slice \<Rightarrow> (slice \<times> slice \<times> slice \<times> slice) \<times> heap" where
  "fourTops h ps =
     (let (r1, h1) = getTopH h ps lessCPU 5;
          (r2, h2) = getTopH h1 ps lessMem 5;
          (r3, h3) = getTopH h2 ps lessDisk 5;
          (r4, h4) = getTopH h3 ps lessNet 5
      in ((r1, r2, r3, r4), h4))"

subsection \<open>\<^verbatim>\<open>GetStats\<close>: the system-wide part\<close>

text \<open>\<^verbatim>\<open>var s SystemStats\<close>: every field has its zero value.\<close>

definition zeroStats :: SystemStats where
  "zeroStats =
     \<lparr>CPUUsage = Fin 0, MemoryTotal = 0, MemoryUsed = 0, MemoryFree = 0, Disks = [],
      Uptime = 0, Hostname = [], OS = [], Platform = [], NetSent = 0, NetRecv = 0,
      TopCPU = [], TopMem = [], TopDisk = [], TopNet = []\<rparr>"

definition cpuSection :: "'h provider \<Rightarrow> SystemStats \<Rightarrow> SystemStats" where
  "cpuSection env s =
     (case cpu_Percent env of
        Inl err \<Rightarrow> s
      | Inr cpuPercentages \<Rightarrow>
          if 0 < length cpuPercentages then s\<lparr>CPUUsage := cpuPercentages ! 0\<rparr> else s)"

definition memSection :: "'h provider \<Rightarrow> SystemStats \<Rightarrow> SystemStats" where
  "memSection env s =
     (case mem_VirtualMemory env of
        Inl err \<Rightarrow> s
      | Inr vm \<Rightarrow> s\<lparr>MemoryTotal := vm_Total vm, MemoryUsed := vm_Used vm,
                    MemoryFree := vm_Free vm\<rparr>)"

fun diskLoop :: "'h provider \<Rightarrow> PartitionStat list \<Rightarrow> DiskInfo list \<Rightarrow> DiskInfo list" where
  "diskLoop env [] disks = disks"
| "diskLoop env (p # parts) disks =
     (if prefix ''/dev/loop'' (Device p) then diskLoop env parts disks
      else case disk_Usage env (Mountpoint p) of
             Inl err \<Rightarrow> diskLoop env parts disks
           | Inr u \<Rightarrow> diskLoop env parts
               (disks @ [\<lparr>Path = Mountpoint p, Total = usage_Total u, Used = usage_Used u,
                          Free = usage_Free u, UsedPercent = usage_UsedPercent u\<rparr>]))"

definition diskSection :: "'h provider \<Rightarrow> SystemStats \<Rightarrow> SystemStats" where
  "diskSection env s =
     (case disk_Partitions env of
        Inl err \<Rightarrow> s
      | Inr parts \<Rightarrow> s\<lparr>Disks := diskLoop env parts (Disks s)\<rparr>)"

definition hostSection :: "'h provider \<Rightarrow> SystemStats \<Rightarrow> SystemStats" where
  "hostSection env s =
     (case host_Info env of
        Inl err \<Rightarrow> s
      | Inr h \<Rightarrow> s\<lparr>Uptime := info_Uptime h, Hostname := info_Hostname h, OS := info_OS h,
                   Platform := info_Platform h\<rparr>)"

definition netSection :: "'h provider \<Rightarrow> SystemStats \<Rightarrow> SystemStats" where
  "netSection env s =
     (case net_IOCounters env of
        Inl err \<Rightarrow> s
      | Inr n \<Rightarrow> if 0 < length n then s\<lparr>NetSent := BytesSent (n ! 0), NetRecv := BytesRecv (n ! 0)\<rparr>
                 else s)"

definition systemSection :: "'h provider \<Rightarrow> SystemStats" where
  "systemSection env =
     netSection env (hostSection env (diskSection env (memSection env (cpuSection env zeroStats))))"

subsection \<open>\<^verbatim>\<open>GetStats\<close>: the processes\<close>

text \<open>The elapsed time of the poll, in seconds, with the floor of the source.\<close>

definition pollDuration :: "Time \<Rightarrow> Time \<Rightarrow> float64" where
  "pollDuration lastT now =
     (let duration = Seconds (Sub now lastT) in
      if f64_le duration (Fin 0) then Fin 1 else duration)"

definition diskRateOf ::
  "(float64 \<Rightarrow> uint64) \<Rightarrow> ProcessInfo option \<Rightarrow> uint64 \<Rightarrow> float64 \<Rightarrow> uint64" where
  "diskRateOf oor lastOpt diskIO duration =
     (case lastOpt of
        None \<Rightarrow> 0
      | Some last' \<Rightarrow>
          if DiskIO last' \<le> diskIO
          then uint64_of_f64 oor (f64_div (f64_of_uint64 (diskIO - DiskIO last')) duration)
          else 0)"

text \<open>The body of the loop over the PIDs, from \<^verbatim>\<open>proc.Name()\<close> on: the sample of one
  process, read through its handle.\<close>

definition sampleProc ::
  "'h provider \<Rightarrow> float64 \<Rightarrow> (int32 \<rightharpoonup> ProcessInfo) \<Rightarrow> int32 \<Rightarrow> 'h \<Rightarrow> ProcessInfo" where
  "sampleProc env duration lastSt pid proc =
     (let name = stringOr (proc_Name env proc);
          cpuVal = (case proc_CPUPercent env proc of Inl err \<Rightarrow> Fin 0 | Inr c \<Rightarrow> c);
          memInfo = ptrOr (proc_MemoryInfo env proc);
          memUsage = (case memInfo of None \<Rightarrow> 0 | Some mi \<Rightarrow> RSS mi);
          io = ptrOr (proc_IOCounters env proc);
          diskIO = (case io of None \<Rightarrow> 0 | Some c \<Rightarrow> ReadBytes c + WriteBytes c);
          diskRate = diskRateOf (uint64_out_of_range env) (lastSt pid) diskIO duration;
          conns = sliceOr (proc_Connections env proc);
          netConns = int (length conns)
      in \<lparr>PID = pid, Name = name, CPU = cpuVal, Mem = memUsage, DiskIO = diskIO,
          DiskRate = diskRate, NetConns = netConns\<rparr>)"

text \<open>The handle of a PID: the cached one, or a new one that is cached; \<open>None\<close>
  when the provider cannot give one, and the loop goes on to the next PID.\<close>

definition acquire :: "'h provider \<Rightarrow> 'h Monitor \<Rightarrow> int32 \<Rightarrow> ('h \<times> 'h Monitor) option" where
  "acquire env m pid =
     (case procs m pid of
        Some existing \<Rightarrow> Some (existing, m)
      | None \<Rightarrow>
          (case process_NewProcess env pid of
             Inl err \<Rightarrow> None
           | Inr newProc \<Rightarrow> Some (newProc, m\<lparr>procs := (procs m)(pid \<mapsto> newProc)\<rparr>)))"

definition procStep ::
  "'h provider \<Rightarrow> float64 \<Rightarrow> int32 \<Rightarrow> 'h Monitor \<times> ProcessInfo list
    \<Rightarrow> 'h Monitor \<times> ProcessInfo list" where
  "procStep env duration pid st =
     (case acquire env (fst st) pid of
        None \<Rightarrow> st
      | Some (proc, m) \<Rightarrow>
          let info = sampleProc env duration (lastStats m) pid proc
          in (m\<lparr>lastStats := (lastStats m)(pid \<mapsto> info)\<rparr>, snd st @ [info]))"

fun procLoop ::
  "'h provider \<Rightarrow> float64 \<Rightarrow> int32 list \<Rightarrow> 'h Monitor \<times> ProcessInfo list
    \<Rightarrow> 'h Monitor \<times> ProcessInfo list" where
  "procLoop env duration [] st = st"
| "procLoop env duration (pid # pids) st = procLoop env duration pids (procStep env duration pid st)"

text \<open>
  The cleanup. \<^verbatim>\<open>activePids\<close> is the set of the enumerated PIDs. The loop ranges over
  the keys of \<^verbatim>\<open>m.procs\<close> in an order Go does not fix; \<open>purgeLoop\<close> is that loop over a
  given order of the keys, and \<open>cleanup\<close> is what it comes to in every order (lemma
  \<open>purgeLoop_cleanup\<close>).
\<close>

definition activePids :: "int32 list \<Rightarrow> int32 \<Rightarrow> bool" where
  "activePids pids pid = (pid \<in> set pids)"

definition purgeStep :: "int32 list \<Rightarrow> int32 \<Rightarrow> 'h Monitor \<Rightarrow> 'h Monitor" where
  "purgeStep pids pid m =
     (if \<not> activePids pids pid
      then m\<lparr>procs := (procs m)(pid := None), lastStats := (lastStats m)(pid := None)\<rparr>
      else m)"

fun purgeLoop :: "int32 list \<Rightarrow> int32 list \<Rightarrow> 'h Monitor \<Rightarrow> 'h Monitor" where
  "purgeLoop pids [] m = m"
| "purgeLoop pids (k # keys) m = purgeLoop pids keys (purgeStep pids k m)"

definition cleanup :: "int32 list \<Rightarrow> 'h Monitor \<Rightarrow> 'h Monitor" where
  "cleanup pids m =
     m\<lparr>procs := (\<lambda>pid. if activePids pids pid then procs m pid else None),
       lastStats := (\<lambda>pid. if procs m pid \<noteq> None \<and> \<not> activePids pids pid then None
                            else lastStats m pid)\<rparr>"

text \<open>The loop over the first PIDs \<open>pids\<close> of a poll: the engine state it reaches and
  the samples it has taken so far, in the order of the enumeration.\<close>

definition pollState ::
  "'h provider \<Rightarrow> 'h Monitor \<Rightarrow> int32 list \<Rightarrow> 'h Monitor \<times> ProcessInfo list" where
  "pollState env m pids =
     procLoop env (pollDuration (lastTime m) (time_Now env)) pids (m, [])"

text \<open>The process part of the poll, and the poll itself: the snapshot, the error
  (always nil) and the engine state it leaves.\<close>

definition processSection ::
  "'h provider \<Rightarrow> 'h Monitor \<Rightarrow> SystemStats \<Rightarrow> SystemStats \<times> 'h Monitor" where
  "processSection env m s =
     (case process_Pids env of
        Inl err \<Rightarrow> (s, m)
      | Inr pids \<Rightarrow>
          let now = time_Now env;
              (m1, procInfos) = pollState env m pids;
              m2 = m1\<lparr>lastTime := now\<rparr>;
              m3 = cleanup pids m2
          in (s\<lparr>TopCPU := getTop procInfos lessCPU 5,
                TopMem := getTop procInfos lessMem 5,
                TopDisk := getTop procInfos lessDisk 5,
                TopNet := getTop procInfos lessNet 5\<rparr>, m3))"

definition GetStats ::
  "'h provider \<Rightarrow> 'h Monitor \<Rightarrow> (SystemStats \<times> error option) \<times> 'h Monitor" where
  "GetStats env m =
     (let (s, m') = processSection env m (systemSection env) in ((s, None), m'))"

text \<open>The engine states a program can be in: the fields of \<^verbatim>\<open>Monitor\<close> are not
  exported, so a state comes from \<^verbatim>\<open>NewMonitor\<close> and polls.\<close>

inductive reachable :: "'h Monitor \<Rightarrow> bool" where
  init: "reachable (NewMonitor now)"
| poll: "reachable m \<Longrightarrow> reachable (snd (GetStats env m))"

subsection \<open>Orders and rankings\<close>

text \<open>What \<^verbatim>\<open>sort.SliceStable\<close> asks of \<^verbatim>\<open>less\<close>, on the elements of a set: a strict weak
  order (asymmetric, and being not-less is transitive).\<close>

definition strictWeakOn :: "'a set \<Rightarrow> ('a \<Rightarrow> 'a \<Rightarrow> bool) \<Rightarrow> bool" where
  "strictWeakOn S lt =
     ((\<forall>a\<in>S. \<forall>b\<in>S. lt a b \<longrightarrow> \<not> lt b a) \<and>
      (\<forall>a\<in>S. \<forall>b\<in>S. \<forall>c\<in>S. \<not> lt a b \<longrightarrow> \<not> lt b c \<longrightarrow> \<not> lt a c))"


text \<open>A list is ranked when no entry is below a later one in the metric, and of two
  entries with the same metric the one with the lower PID comes first.\<close>

definition ranked ::
  "(ProcessInfo \<Rightarrow> ProcessInfo \<Rightarrow> bool) \<Rightarrow> (ProcessInfo \<Rightarrow> ProcessInfo \<Rightarrow> bool) \<Rightarrow> ProcessInfo list \<Rightarrow> bool" where
  "ranked below same xs =
     sorted_wrt (\<lambda>p q. \<not> below p q \<and> (same p q \<longrightarrow> sint (PID p) \<le> sint (PID q))) xs"


subsection \<open>Notions the properties are stated with\<close>

text \<open>The usage record \<^verbatim>\<open>GetStats\<close> keeps for a partition: none for a loop device and
  none when the usage query fails.\<close>

definition usageRecord :: "'h provider \<Rightarrow> PartitionStat \<Rightarrow> DiskInfo option" where
  "usageRecord env p =
     (if prefix ''/dev/loop'' (Device p) then None
      else case disk_Usage env (Mountpoint p) of
             Inl err \<Rightarrow> None
           | Inr u \<Rightarrow> Some \<lparr>Path = Mountpoint p, Total = usage_Total u, Used = usage_Used u,
                          Free = usage_Free u, UsedPercent = usage_UsedPercent u\<rparr>)"

text \<open>Every PID with a cached sample has a cached handle.\<close>

definition cachesAgree :: "'h Monitor \<Rightarrow> bool" where
  "cachesAgree m = (dom (lastStats m) \<subseteq> dom (procs m))"

text \<open>Two providers give the same answers to every query of the process part.\<close>

definition sameProcessAnswers :: "'h provider \<Rightarrow> 'h provider \<Rightarrow> bool" where
  "sameProcessAnswers env env' =
     (process_Pids env' = process_Pids env \<and> time_Now env' = time_Now env \<and>
      process_NewProcess env' = process_NewProcess env \<and> proc_Name env' = proc_Name env \<and>
      proc_CPUPercent env' = proc_CPUPercent env \<and> proc_MemoryInfo env' = proc_MemoryInfo env \<and>
      proc_IOCounters env' = proc_IOCounters env \<and> proc_Connections env' = proc_Connections env \<and>
      uint64_out_of_range env' = uint64_out_of_range env)"

text \<open>A sample is one taken in the poll: its PID is among \<open>S\<close>, and it was read with
  duration \<open>d\<close> through the handle the engine \<open>m\<close> has cached for that PID.\<close>

definition sampledIn :: "'h provider \<Rightarrow> float64 \<Rightarrow> int32 set \<Rightarrow> 'h Monitor \<Rightarrow> ProcessInfo \<Rightarrow> bool" where
  "sampledIn env d S m info =
     (PID info \<in> S \<and>
      (\<exists>proc L. procs m (PID info) = Some proc \<and> info = sampleProc env d L (PID info) proc))"

text \<open>A query that returned no error; a PID whose handle the provider can give; a PID for
  which the poll can get a handle, cached or new; and the PIDs a poll enumerates, none
  when the enumeration fails.\<close>

definition succeeded :: "'e + 'a \<Rightarrow> bool" where
  "succeeded r = (case r of Inl e \<Rightarrow> False | Inr v \<Rightarrow> True)"

definition newOK :: "'h provider \<Rightarrow> int32 \<Rightarrow> bool" where
  "newOK env pid = succeeded (process_NewProcess env pid)"

definition acquirable :: "'h provider \<Rightarrow> 'h Monitor \<Rightarrow> int32 \<Rightarrow> bool" where
  "acquirable env m pid = (procs m pid \<noteq> None \<or> newOK env pid)"

definition enumerated :: "'h provider \<Rightarrow> int32 set" where
  "enumerated env = (case process_Pids env of Inl e \<Rightarrow> {} | Inr pids \<Rightarrow> set pids)"

text \<open>The snapshot a poll returns, and a provider whose \<^verbatim>\<open>CPUPercent\<close> answers are numbers:
  gopsutil computes the answer as 100 times the CPU time over the time since the process
  started, behind a guard that the latter is positive, which is never NaN.\<close>

definition snapshot :: "'h provider \<Rightarrow> 'h Monitor \<Rightarrow> SystemStats" where
  "snapshot env m = fst (fst (GetStats env m))"

definition numbersOnly :: "'h provider \<Rightarrow> bool" where
  "numbersOnly env = (\<forall>h c. proc_CPUPercent env h = Inr c \<longrightarrow> c \<noteq> NaN)"

subsection \<open>Example samples and stores\<close>

definition procA :: ProcessInfo where
  "procA = \<lparr>PID = 1, Name = ''a'', CPU = Fin 1, Mem = 0, DiskIO = 0, DiskRate = 0, NetConns = 0\<rparr>"

definition procB :: ProcessInfo where
  "procB = \<lparr>PID = 2, Name = ''b'', CPU = Fin 3, Mem = 0, DiskIO = 0, DiskRate = 0, NetConns = 0\<rparr>"

definition procC :: ProcessInfo where
  "procC = \<lparr>PID = 3, Name = ''c'', CPU = Fin 2, Mem = 0, DiskIO = 0, DiskRate = 0, NetConns = 0\<rparr>"


definition twelve :: "ProcessInfo list" where
  "twelve = map (\<lambda>i. procA\<lparr>PID := of_nat i, Mem := of_nat (i mod 3)\<rparr>) [0..<12]"

definition heap0 :: heap where
  "heap0 = \<lparr>arrays = (\<lambda>a. if a = 0 then [procA, procC, procB] else []), next_free = 1\<rparr>"

text \<open>A provider whose every query fails; one process, PID 100, that has read \<open>bytes\<close>
  bytes at time \<open>now\<close>; and the three polls of the scenario: 1000 bytes at 0 s, 3000
  bytes at 1 s, 2500 bytes at 2 s.\<close>

definition failing :: "nat provider" where
  "failing =
     \<lparr>cpu_Percent = Inl (Err ''cpu''), mem_VirtualMemory = Inl (Err ''mem''),
      disk_Partitions = Inl (Err ''partitions''), disk_Usage = (\<lambda>path. Inl (Err ''usage'')),
      host_Info = Inl (Err ''host''), net_IOCounters = Inl (Err ''net''),
      process_Pids = Inl (Err ''pids''), time_Now = 1000000000,
      process_NewProcess = (\<lambda>pid. Inl (Err ''gone'')),
      proc_Name = (\<lambda>h. Inl (Err ''name'')), proc_CPUPercent = (\<lambda>h. Inl (Err ''cpu'')),
      proc_MemoryInfo = (\<lambda>h. Inl (Err ''mem'')), proc_IOCounters = (\<lambda>h. Inl (Err ''io'')),
      proc_Connections = (\<lambda>h. Inl (Err ''conns'')), uint64_out_of_range = (\<lambda>f. 0)\<rparr>"

definition onePid :: "Time \<Rightarrow> uint64 \<Rightarrow> nat provider" where
  "onePid now bytes =
     failing\<lparr>process_Pids := Inr [100], time_Now := now,
       process_NewProcess := (\<lambda>pid. Inr (unat pid)),
       proc_IOCounters := (\<lambda>h. Inr \<lparr>ReadBytes = bytes, WriteBytes = 0\<rparr>)\<rparr>"

definition poll1 :: "nat Monitor" where
  "poll1 = snd (GetStats (onePid 0 1000) (NewMonitor 0))"

definition poll2 :: "nat Monitor" where
  "poll2 = snd (GetStats (onePid 1000000000 3000) poll1)"

definition poll3 :: "nat Monitor" where
  "poll3 = snd (GetStats (onePid 2000000000 2500) poll2)"


text \<open>Four partitions: a disk, a loop device, a disk whose usage query fails, and another
  disk.\<close>

definition threeMounts :: "nat provider" where
  "threeMounts =
     failing\<lparr>disk_Partitions :=
         Inr [\<lparr>Device = ''/dev/sda1'', Mountpoint = ''/''\<rparr>,
              \<lparr>Device = ''/dev/loop0'', Mountpoint = ''/snap''\<rparr>,
              \<lparr>Device = ''/dev/sdb1'', Mountpoint = ''/bad''\<rparr>,
              \<lparr>Device = ''/dev/sdc1'', Mountpoint = ''/data''\<rparr>],
       disk_Usage := (\<lambda>path. if path = ''/bad'' then Inl (Err ''usage'')
          else Inr \<lparr>usage_Total = 100, usage_Used = 40, usage_Free = 60,
                    usage_UsedPercent = Fin 40\<rparr>)\<rparr>"

section \<open>Properties\<close>

subsection \<open>The insertion sort\<close>

lemma length_insertLeft: "length (insertLeft lt x ys) = Suc (length ys)"
  by (induction ys) auto

lemma mset_insertLeft: "mset (insertLeft lt x ys) = add_mset x (mset ys)"
  by (induction ys) auto

lemma set_insertLeft: "set (insertLeft lt x ys) = insert x (set ys)"
  by (induction ys) auto

lemma length_foldl_insertLeft:
  "length (foldl (\<lambda>acc x. insertLeft lt x acc) acc xs) = length acc + length xs"
  by (induction xs arbitrary: acc) (auto simp: length_insertLeft)

lemma mset_foldl_insertLeft:
  "mset (foldl (\<lambda>acc x. insertLeft lt x acc) acc xs) = mset acc + mset xs"
  by (induction xs arbitrary: acc) (auto simp: mset_insertLeft)

lemma length_SliceStable: "length (SliceStable lt xs) = length xs"
  by (simp add: SliceStable_def length_foldl_insertLeft)

lemma mset_SliceStable: "mset (SliceStable lt xs) = mset xs"
  by (simp add: SliceStable_def mset_foldl_insertLeft)

lemma set_SliceStable: "set (SliceStable lt xs) = set xs"
proof -
  have "set_mset (mset (SliceStable lt xs)) = set_mset (mset xs)"
    by (simp only: mset_SliceStable)
  then show ?thesis by simp
qed

lemma strictWeakOn_asym:
  "strictWeakOn S lt \<Longrightarrow> a \<in> S \<Longrightarrow> b \<in> S \<Longrightarrow> lt a b \<Longrightarrow> \<not> lt b a"
  unfolding strictWeakOn_def by blast

lemma strictWeakOn_negtrans:
  "strictWeakOn S lt \<Longrightarrow> a \<in> S \<Longrightarrow> b \<in> S \<Longrightarrow> c \<in> S \<Longrightarrow> \<not> lt a b \<Longrightarrow> \<not> lt b c
    \<Longrightarrow> \<not> lt a c"
  unfolding strictWeakOn_def by blast

lemma insertLeft_sorted:
  assumes sw: "strictWeakOn S lt"
  shows "x \<in> S \<Longrightarrow> set ys \<subseteq> S \<Longrightarrow> sorted_wrt (\<lambda>a b. \<not> lt a b) ys
    \<Longrightarrow> sorted_wrt (\<lambda>a b. \<not> lt a b) (insertLeft lt x ys)"
proof (induction ys)
  case Nil
  then show ?case by simp
next
  case (Cons y ys)
  have yS: "y \<in> S" and ysS: "set ys \<subseteq> S" using Cons.prems(2) by simp_all
  have sy: "\<forall>b\<in>set ys. \<not> lt y b" and sys: "sorted_wrt (\<lambda>a b. \<not> lt a b) ys"
    using Cons.prems(3) by simp_all
  show ?case
  proof (cases "lt x y")
    case True
    have 1: "\<not> lt y x" using strictWeakOn_asym [OF sw Cons.prems(1) yS True] .
    have 2: "sorted_wrt (\<lambda>a b. \<not> lt a b) (insertLeft lt x ys)"
      using Cons.IH [OF Cons.prems(1) ysS sys] .
    show ?thesis using True 1 2 sy by (simp add: set_insertLeft)
  next
    case False
    have "\<not> lt x b" if "b \<in> set ys" for b
    proof -
      have "\<not> lt y b" using sy that by blast
      moreover have "b \<in> S" using ysS that by blast
      ultimately show ?thesis
        using strictWeakOn_negtrans [OF sw Cons.prems(1) yS _ False] by blast
    qed
    then show ?thesis using False sy sys by simp
  qed
qed

lemma foldl_insertLeft_sorted:
  assumes sw: "strictWeakOn S lt"
  shows "set xs \<subseteq> S \<Longrightarrow> set acc \<subseteq> S \<Longrightarrow> sorted_wrt (\<lambda>a b. \<not> lt a b) acc
    \<Longrightarrow> sorted_wrt (\<lambda>a b. \<not> lt a b) (foldl (\<lambda>acc x. insertLeft lt x acc) acc xs)"
proof (induction xs arbitrary: acc)
  case Nil
  then show ?case by simp
next
  case (Cons x xs)
  have "sorted_wrt (\<lambda>a b. \<not> lt a b) (insertLeft lt x acc)"
    using insertLeft_sorted [OF sw] Cons.prems by simp
  moreover have "set (insertLeft lt x acc) \<subseteq> S"
    using Cons.prems by (simp add: set_insertLeft)
  ultimately show ?case using Cons.IH [of "insertLeft lt x acc"] Cons.prems(1) by simp
qed

lemma SliceStable_sorted:
  assumes "strictWeakOn (set xs) lt"
  shows "sorted_wrt (\<lambda>a b. \<not> lt b a) (SliceStable lt xs)"
proof -
  have "sorted_wrt (\<lambda>a b. \<not> lt a b) (foldl (\<lambda>acc x. insertLeft lt x acc) [] xs)"
    using foldl_insertLeft_sorted [OF assms, of xs "[]"] by simp
  then show ?thesis by (simp add: SliceStable_def sorted_wrt_rev)
qed

lemma sorted_wrt_unique:
  assumes "\<And>a b. a \<in> set xs \<Longrightarrow> b \<in> set xs \<Longrightarrow> R a b \<Longrightarrow> R b a \<Longrightarrow> a = b"
  shows "sorted_wrt R xs \<Longrightarrow> sorted_wrt R ys \<Longrightarrow> mset xs = mset ys \<Longrightarrow> xs = ys"
  using assms
proof (induction xs arbitrary: ys)
  case Nil
  then show ?case by simp
next
  case (Cons x xs)
  from Cons.prems(3) obtain y ys' where ys: "ys = y # ys'"
    by (cases ys) auto
  have "set_mset (mset (x # xs)) = set_mset (mset ys)" using Cons.prems(3) by (simp only:)
  then have sets: "insert x (set xs) = insert y (set ys')" using ys by simp
  have sx: "\<forall>b\<in>set xs. R x b" using Cons.prems(1) by simp
  have sy: "\<forall>b\<in>set ys'. R y b" using Cons.prems(2) ys by simp
  have "x = y"
  proof (rule ccontr)
    assume ne: "x \<noteq> y"
    have "x \<in> insert y (set ys')" using sets by auto
    then have "x \<in> set ys'" using ne by simp
    then have 1: "R y x" using sy by blast
    have "y \<in> insert x (set xs)" using sets by auto
    then have yxs: "y \<in> set xs" using ne by simp
    then have 2: "R x y" using sx by blast
    have "x = y" using Cons.prems(4) [of x y] 1 2 yxs by simp
    with ne show False by simp
  qed
  moreover have "xs = ys'"
  proof (rule Cons.IH)
    show "sorted_wrt R xs" using Cons.prems(1) by simp
    show "sorted_wrt R ys'" using Cons.prems(2) ys by simp
    show "mset xs = mset ys'" using Cons.prems(3) ys \<open>x = y\<close> by simp
    show "a = b" if "a \<in> set xs" "b \<in> set xs" "R a b" "R b a" for a b
      using Cons.prems(4) [of a b] that by simp
  qed
  ultimately show ?case using ys by simp
qed

subsection \<open>The four comparison functions\<close>

lemma strictWeakOn_lex:
  fixes k :: "'a \<Rightarrow> 'k::linorder" and t :: "'a \<Rightarrow> 't::linorder"
  shows "strictWeakOn S (\<lambda>a b. if k a \<noteq> k b then k b < k a else t a < t b)"
  unfolding strictWeakOn_def by (auto split: if_splits)

lemma strictWeakOn_lessMem: "strictWeakOn S lessMem"
proof -
  have "lessMem = (\<lambda>a b. if Mem a \<noteq> Mem b then Mem b < Mem a else sint (PID a) < sint (PID b))"
    by (intro ext) (simp only: lessMem_def)
  then show ?thesis using strictWeakOn_lex [of S Mem "\<lambda>p. sint (PID p)"] by simp
qed

lemma strictWeakOn_lessDisk: "strictWeakOn S lessDisk"
proof -
  have "lessDisk = (\<lambda>a b. if DiskRate a \<noteq> DiskRate b then DiskRate b < DiskRate a else sint (PID a) < sint (PID b))"
    by (intro ext) (simp only: lessDisk_def)
  then show ?thesis using strictWeakOn_lex [of S DiskRate "\<lambda>p. sint (PID p)"] by simp
qed

lemma strictWeakOn_lessNet: "strictWeakOn S lessNet"
proof -
  have "lessNet = (\<lambda>a b. if NetConns a \<noteq> NetConns b then NetConns b < NetConns a else sint (PID a) < sint (PID b))"
    by (intro ext) (simp only: lessNet_def)
  then show ?thesis using strictWeakOn_lex [of S NetConns "\<lambda>p. sint (PID p)"] by simp
qed

lemma f64_lt_trans: "f64_lt a b \<Longrightarrow> f64_lt b c \<Longrightarrow> f64_lt a c"
  by (cases a; cases b; cases c) auto

lemma f64_lt_asym: "f64_lt a b \<Longrightarrow> \<not> f64_lt b a"
  by (cases a; cases b) auto

lemma f64_lt_total: "a \<noteq> NaN \<Longrightarrow> b \<noteq> NaN \<Longrightarrow> a \<noteq> b \<Longrightarrow> f64_lt a b \<or> f64_lt b a"
  by (cases a; cases b) auto

lemma lessCPU_asym:
  "lessCPU a b \<Longrightarrow> \<not> lessCPU b a"
  unfolding lessCPU_def f64_ne_def f64_eq_def f64_gt_def
  by (auto split: if_splits dest: f64_lt_asym)

lemma lessCPU_negtrans:
  assumes "CPU a \<noteq> NaN" "CPU b \<noteq> NaN" "CPU c \<noteq> NaN"
    and "\<not> lessCPU a b" "\<not> lessCPU b c"
  shows "\<not> lessCPU a c"
proof -
  have ab: "CPU a = CPU b \<and> sint (PID b) \<le> sint (PID a) \<or> f64_lt (CPU a) (CPU b)"
    using assms(1,2,4) f64_lt_total [of "CPU a" "CPU b"]
    unfolding lessCPU_def f64_ne_def f64_eq_def f64_gt_def by (auto split: if_splits)
  have bc: "CPU b = CPU c \<and> sint (PID c) \<le> sint (PID b) \<or> f64_lt (CPU b) (CPU c)"
    using assms(2,3,5) f64_lt_total [of "CPU b" "CPU c"]
    unfolding lessCPU_def f64_ne_def f64_eq_def f64_gt_def by (auto split: if_splits)
  have ac: "CPU a = CPU c \<and> sint (PID c) \<le> sint (PID a) \<or> f64_lt (CPU a) (CPU c)"
    using ab bc f64_lt_trans [of "CPU a" "CPU b" "CPU c"] by auto
  have irr: "\<not> f64_lt (CPU c) (CPU c)" using f64_lt_asym by blast
  show ?thesis
    using ac irr f64_lt_asym [of "CPU a" "CPU c"]
    unfolding lessCPU_def f64_ne_def f64_eq_def f64_gt_def by (auto split: if_splits)
qed

lemma strictWeakOn_lessCPU:
  assumes "\<forall>p\<in>S. CPU p \<noteq> NaN"
  shows "strictWeakOn S lessCPU"
  unfolding strictWeakOn_def
  using assms lessCPU_asym lessCPU_negtrans by blast

subsection \<open>\<^verbatim>\<open>getTop\<close>\<close>

lemma getTop_length: "length (getTop ps lt limit) = min (length ps) limit"
  by (simp add: getTop_def Let_def length_SliceStable)

lemma SliceStable_ranked:
  assumes sw: "strictWeakOn (set xs) lt"
    and imp: "\<And>p q. \<not> lt q p \<Longrightarrow> \<not> below p q \<and> (same p q \<longrightarrow> sint (PID p) \<le> sint (PID q))"
  shows "ranked below same (take n (SliceStable lt xs))"
proof -
  have "sorted_wrt (\<lambda>a b. \<not> lt b a) (SliceStable lt xs)"
    using SliceStable_sorted [OF sw] .
  then have "sorted_wrt (\<lambda>p q. \<not> below p q \<and> (same p q \<longrightarrow> sint (PID p) \<le> sint (PID q)))
      (SliceStable lt xs)"
    by (rule sorted_wrt_mono_rel [rotated]) (use imp in blast)
  then show ?thesis unfolding ranked_def by (rule sorted_wrt_take)
qed

lemma getTop_ranked:
  assumes sw: "strictWeakOn (set xs) lt"
    and imp: "\<And>p q. \<not> lt q p \<Longrightarrow> \<not> below p q \<and> (same p q \<longrightarrow> sint (PID p) \<le> sint (PID q))"
  shows "ranked below same (getTop xs lt n)"
proof -
  have "getTop xs lt n = take n (SliceStable lt xs)"
    by (simp add: getTop_def Let_def length_SliceStable SliceStable_def)
  then show ?thesis using SliceStable_ranked [OF sw imp] by simp
qed

lemma ranked_Mem: "ranked (\<lambda>p q. Mem p < Mem q) (\<lambda>p q. Mem p = Mem q) (getTop ps lessMem n)"
  by (rule getTop_ranked [OF strictWeakOn_lessMem]) (auto simp: lessMem_def split: if_splits)

lemma ranked_Disk:
  "ranked (\<lambda>p q. DiskRate p < DiskRate q) (\<lambda>p q. DiskRate p = DiskRate q) (getTop ps lessDisk n)"
  by (rule getTop_ranked [OF strictWeakOn_lessDisk]) (auto simp: lessDisk_def split: if_splits)

lemma ranked_Net:
  "ranked (\<lambda>p q. NetConns p < NetConns q) (\<lambda>p q. NetConns p = NetConns q) (getTop ps lessNet n)"
  by (rule getTop_ranked [OF strictWeakOn_lessNet]) (auto simp: lessNet_def split: if_splits)

lemma ranked_CPU:
  assumes "\<forall>p\<in>set ps. CPU p \<noteq> NaN"
  shows "ranked (\<lambda>p q. f64_lt (CPU p) (CPU q)) (\<lambda>p q. f64_eq (CPU p) (CPU q)) (getTop ps lessCPU n)"
  by (rule getTop_ranked [OF strictWeakOn_lessCPU [OF assms]])
    (auto simp: lessCPU_def f64_ne_def f64_eq_def f64_gt_def split: if_splits dest: f64_lt_asym)

lemma sint_inj32: "sint (a::int32) = sint b \<Longrightarrow> a = b"
  by (rule signed_word_eqI)

lemma getTop_take: "getTop xs lt n = take n (SliceStable lt xs)"
  by (simp add: getTop_def Let_def length_SliceStable SliceStable_def)

lemma getTop_perm:
  assumes sw: "strictWeakOn (set xs) lt"
    and perm: "mset xs = mset ys"
    and total: "\<And>a b. a \<in> set xs \<Longrightarrow> b \<in> set xs \<Longrightarrow> \<not> lt a b \<Longrightarrow> \<not> lt b a \<Longrightarrow> a = b"
  shows "getTop xs lt n = getTop ys lt n"
proof -
  have sets: "set ys = set xs" using perm by (metis set_mset_mset)
  have 1: "sorted_wrt (\<lambda>a b. \<not> lt b a) (SliceStable lt xs)"
    using SliceStable_sorted [OF sw] .
  have 2: "sorted_wrt (\<lambda>a b. \<not> lt b a) (SliceStable lt ys)"
    using SliceStable_sorted [of ys lt] sw sets by simp
  have 3: "mset (SliceStable lt xs) = mset (SliceStable lt ys)"
    using perm by (simp add: mset_SliceStable)
  have "SliceStable lt xs = SliceStable lt ys"
  proof (rule sorted_wrt_unique [OF _ 1 2 3])
    fix a b
    assume "a \<in> set (SliceStable lt xs)" "b \<in> set (SliceStable lt xs)" "\<not> lt b a" "\<not> lt a b"
    then show "a = b" using total [of a b] by (simp add: set_SliceStable)
  qed
  then show ?thesis by (simp add: getTop_take)
qed

lemma same_PID:
  assumes "distinct (map PID xs)" "a \<in> set xs" "b \<in> set xs" "PID a = PID b"
  shows "a = b"
  using assms by (meson distinct_map inj_onD)

lemma perm_Mem:
  assumes "mset xs = mset ys" "distinct (map PID xs)"
  shows "getTop xs lessMem n = getTop ys lessMem n"
proof (rule getTop_perm [OF strictWeakOn_lessMem assms(1)])
  fix a b
  assume "a \<in> set xs" "b \<in> set xs" "\<not> lessMem a b" "\<not> lessMem b a"
  moreover from this have "PID a = PID b"
    by (auto simp: lessMem_def split: if_splits intro: sint_inj32)
  ultimately show "a = b" using same_PID [OF assms(2)] by blast
qed

lemma perm_Disk:
  assumes "mset xs = mset ys" "distinct (map PID xs)"
  shows "getTop xs lessDisk n = getTop ys lessDisk n"
proof (rule getTop_perm [OF strictWeakOn_lessDisk assms(1)])
  fix a b
  assume "a \<in> set xs" "b \<in> set xs" "\<not> lessDisk a b" "\<not> lessDisk b a"
  moreover from this have "PID a = PID b"
    by (auto simp: lessDisk_def split: if_splits intro: sint_inj32)
  ultimately show "a = b" using same_PID [OF assms(2)] by blast
qed

lemma perm_Net:
  assumes "mset xs = mset ys" "distinct (map PID xs)"
  shows "getTop xs lessNet n = getTop ys lessNet n"
proof (rule getTop_perm [OF strictWeakOn_lessNet assms(1)])
  fix a b
  assume "a \<in> set xs" "b \<in> set xs" "\<not> lessNet a b" "\<not> lessNet b a"
  moreover from this have "PID a = PID b"
    by (auto simp: lessNet_def split: if_splits intro: sint_inj32)
  ultimately show "a = b" using same_PID [OF assms(2)] by blast
qed

lemma perm_CPU:
  assumes "mset xs = mset ys" "distinct (map PID xs)" "\<forall>p\<in>set xs. CPU p \<noteq> NaN"
  shows "getTop xs lessCPU n = getTop ys lessCPU n"
proof (rule getTop_perm [OF strictWeakOn_lessCPU [OF assms(3)] assms(1)])
  fix a b
  assume ab: "a \<in> set xs" "b \<in> set xs" and n: "\<not> lessCPU a b" "\<not> lessCPU b a"
  have "CPU a \<noteq> NaN" "CPU b \<noteq> NaN" using ab assms(3) by auto
  then have "PID a = PID b"
    using n f64_lt_total [of "CPU a" "CPU b"]
    by (auto simp: lessCPU_def f64_ne_def f64_eq_def f64_gt_def split: if_splits intro: sint_inj32)
  then show "a = b" using same_PID [OF assms(2)] ab by blast
qed


lemma getTop_CPU_ac: "getTop [procA, procC] lessCPU 5 = [procC, procA]"
  by (simp add: getTop_def SliceStable_def lessCPU_def f64_ne_def f64_eq_def f64_gt_def
      procA_def procC_def)

lemma mset_take_subset: "mset (take n xs) \<subseteq># mset xs"
proof -
  have "mset xs = mset (take n xs) + mset (drop n xs)"
    by (metis append_take_drop_id mset_append)
  then show ?thesis by simp
qed

lemma getTop_subset: "mset (getTop ps lt n) \<subseteq># mset ps"
  using mset_take_subset [of n "SliceStable lt ps"]
  by (simp add: getTop_take mset_SliceStable)

lemma getTop_all: "length ps \<le> n \<Longrightarrow> mset (getTop ps lt n) = mset ps"
  by (simp add: getTop_take mset_SliceStable length_SliceStable)


subsection \<open>\<^verbatim>\<open>getTop\<close> on slices\<close>

lemma length_elems: "validSlice h s \<Longrightarrow> length (elems h s) = sliceLen s"
  by (cases s) auto

lemma elems_frame:
  assumes "validSlice h s" "\<forall>a<next_free h. arrays h' a = arrays h a"
  shows "elems h' s = elems h s"
  using assms by (cases s) auto

lemma validSlice_frame:
  assumes "validSlice h s" "\<forall>a<next_free h. arrays h' a = arrays h a" "next_free h \<le> next_free h'"
  shows "validSlice h' s"
  using assms by (cases s) auto

lemma getTopH_Nil:
  assumes "sliceLen ps = 0"
  shows "getTopH h ps lt limit = (NilSlice, h)"
  using assms by (simp add: getTopH_def)

lemma getTopH_nonempty:
  assumes v: "validSlice h ps" and n: "sliceLen ps \<noteq> 0"
  shows "getTopH h ps lt limit =
    (Slice (next_free h) 0 (min limit (sliceLen ps)),
     h\<lparr>arrays := (arrays h)(next_free h := SliceStable lt (elems h ps)),
       next_free := Suc (next_free h)\<rparr>)"
proof -
  obtain a off k where ps: "ps = Slice a off k" using n by (cases ps) auto
  have a: "a < next_free h" and len: "off + k \<le> length (arrays h a)" using v ps by auto
  have k: "length (take k (drop off (arrays h a))) = k" using len by simp
  show ?thesis
    using a k n ps
    by (auto simp: getTopH_def make_def copy_def sortSliceStable_def Let_def
        length_SliceStable min_def)
qed

lemma getTopH_spec:
  assumes v: "validSlice h ps" and r: "getTopH h ps lt limit = (r, h')"
  shows "(\<forall>a<next_free h. arrays h' a = arrays h a) \<and> next_free h \<le> next_free h' \<and>
         validSlice h' r \<and> elems h' r = getTop (elems h ps) lt limit"
proof (cases "sliceLen ps = 0")
  case True
  then have "elems h ps = []" using v length_elems by fastforce
  then show ?thesis using r True by (simp add: getTopH_Nil getTop_def)
next
  case False
  have len: "length (SliceStable lt (elems h ps)) = sliceLen ps"
    using v by (simp add: length_SliceStable length_elems)
  have tk: "take (min limit (sliceLen ps)) (SliceStable lt (elems h ps)) =
      take limit (SliceStable lt (elems h ps))"
    unfolding len [symmetric] by (simp add: min_def)
  show ?thesis
    using r False len tk unfolding getTopH_nonempty [OF v False]
    by (auto simp: getTop_take)
qed

lemma fourTops_spec:
  assumes v: "validSlice h ps"
    and f: "fourTops h ps = ((r1, r2, r3, r4), h4)"
  shows "elems h4 ps = elems h ps \<and>
         elems h4 r1 = getTop (elems h ps) lessCPU 5 \<and>
         elems h4 r2 = getTop (elems h ps) lessMem 5 \<and>
         elems h4 r3 = getTop (elems h ps) lessDisk 5 \<and>
         elems h4 r4 = getTop (elems h ps) lessNet 5"
proof -
  obtain h1 where g1: "getTopH h ps lessCPU 5 = (r1, h1)"
    using f by (auto simp: fourTops_def split: prod.splits)
  obtain h2 where g2: "getTopH h1 ps lessMem 5 = (r2, h2)"
    using f g1 by (auto simp: fourTops_def split: prod.splits)
  obtain h3 where g3: "getTopH h2 ps lessDisk 5 = (r3, h3)"
    using f g1 g2 by (auto simp: fourTops_def split: prod.splits)
  have g4: "getTopH h3 ps lessNet 5 = (r4, h4)"
    using f g1 g2 g3 by (auto simp: fourTops_def split: prod.splits)
  note s1 = getTopH_spec [OF v g1]
  have fr1: "\<forall>a<next_free h. arrays h1 a = arrays h a" and nf1: "next_free h \<le> next_free h1"
    and vr1: "validSlice h1 r1" and e1: "elems h1 r1 = getTop (elems h ps) lessCPU 5"
    using s1 by blast+
  have v1: "validSlice h1 ps" using validSlice_frame [OF v fr1 nf1] .
  have p1: "elems h1 ps = elems h ps" using elems_frame [OF v fr1] .
  note s2 = getTopH_spec [OF v1 g2]
  have fr2: "\<forall>a<next_free h1. arrays h2 a = arrays h1 a" and nf2: "next_free h1 \<le> next_free h2"
    and vr2: "validSlice h2 r2" and e2: "elems h2 r2 = getTop (elems h1 ps) lessMem 5"
    using s2 by blast+
  have v2: "validSlice h2 ps" using validSlice_frame [OF v1 fr2 nf2] .
  have p2: "elems h2 ps = elems h1 ps" using elems_frame [OF v1 fr2] .
  have vr12: "validSlice h2 r1" using validSlice_frame [OF vr1 fr2 nf2] .
  have e12: "elems h2 r1 = elems h1 r1" using elems_frame [OF vr1 fr2] .
  note s3 = getTopH_spec [OF v2 g3]
  have fr3: "\<forall>a<next_free h2. arrays h3 a = arrays h2 a" and nf3: "next_free h2 \<le> next_free h3"
    and vr3: "validSlice h3 r3" and e3: "elems h3 r3 = getTop (elems h2 ps) lessDisk 5"
    using s3 by blast+
  have v3: "validSlice h3 ps" using validSlice_frame [OF v2 fr3 nf3] .
  have p3: "elems h3 ps = elems h2 ps" using elems_frame [OF v2 fr3] .
  have vr13: "validSlice h3 r1" using validSlice_frame [OF vr12 fr3 nf3] .
  have e13: "elems h3 r1 = elems h2 r1" using elems_frame [OF vr12 fr3] .
  have vr23: "validSlice h3 r2" using validSlice_frame [OF vr2 fr3 nf3] .
  have e23: "elems h3 r2 = elems h2 r2" using elems_frame [OF vr2 fr3] .
  note s4 = getTopH_spec [OF v3 g4]
  have fr4: "\<forall>a<next_free h3. arrays h4 a = arrays h3 a"
    and e4: "elems h4 r4 = getTop (elems h3 ps) lessNet 5"
    using s4 by blast+
  have p4: "elems h4 ps = elems h3 ps" using elems_frame [OF v3 fr4] .
  have e14: "elems h4 r1 = elems h3 r1" using elems_frame [OF vr13 fr4] .
  have e24: "elems h4 r2 = elems h3 r2" using elems_frame [OF vr23 fr4] .
  have e34: "elems h4 r3 = elems h3 r3" using elems_frame [OF vr3 fr4] .
  show ?thesis
    using p1 p2 p3 p4 e1 e2 e3 e4 e12 e13 e14 e23 e24 e34 by simp
qed

subsection \<open>Rounding to \<^verbatim>\<open>float64\<close>\<close>

lemma pow2_powi: "pow2 e = 2 powi e"
  by (simp add: pow2_def power_int_def inverse_eq_divide power_one_over)

lemma pow2_pos: "0 < pow2 e"
  by (simp add: pow2_powi zero_less_power_int)

lemma pow2_mono: "a \<le> b \<Longrightarrow> pow2 a \<le> pow2 b"
  by (simp add: pow2_powi power_int_increasing)

lemma pow2_add: "pow2 (a + b) = pow2 a * pow2 b"
  by (simp add: pow2_powi power_int_add)

lemma pow2_nat: "0 \<le> e \<Longrightarrow> pow2 e = 2 ^ nat e"
  by (simp add: pow2_def)

lemma flog2_bounds:
  assumes "0 < a"
  shows "pow2 (flog2 a) \<le> a \<and> a < pow2 (flog2 a + 1)"
proof (cases "1 \<le> a")
  case True
  define n where "n = \<lfloor>a\<rfloor>"
  have n: "0 < n" using True by (simp add: n_def)
  have b: "2 ^ nat (bitlen n - 1) \<le> n" "n < 2 ^ nat (bitlen n)"
    using bitlen_bounds [OF n] by simp_all
  have bl: "1 \<le> bitlen n" using n bitlen_eq_zero_iff [of n] bitlen_nonneg [of n] by linarith
  have f: "flog2 a = bitlen n - 1" using True by (simp add: flog2_def n_def)
  have "pow2 (flog2 a) = of_int (2 ^ nat (bitlen n - 1))"
    using bl by (simp add: f pow2_nat)
  also have "\<dots> \<le> of_int n" using b(1) by (simp only: of_int_le_iff)
  also have "\<dots> \<le> a" by (simp add: n_def)
  finally have lo: "pow2 (flog2 a) \<le> a" .
  have "a < of_int (n + 1)" unfolding n_def by linarith
  also have "\<dots> \<le> of_int (2 ^ nat (bitlen n))"
  proof -
    have "n + 1 \<le> 2 ^ nat (bitlen n)" using b(2) by simp
    then show ?thesis by (rule of_int_le_iff [THEN iffD2])
  qed
  also have "\<dots> = pow2 (flog2 a + 1)" using bl by (simp add: f pow2_nat)
  finally show ?thesis using lo by simp
next
  case False
  define b where "b = 1 / a"
  have b1: "1 < b" using False assms by (simp add: b_def)
  define k where "k = \<lceil>b\<rceil> - 1"
  have k: "0 < k" using b1 unfolding k_def by linarith
  have bb: "2 ^ nat (bitlen k - 1) \<le> k" "k < 2 ^ nat (bitlen k)"
    using bitlen_bounds [OF k] by simp_all
  have bl: "1 \<le> bitlen k" using k bitlen_eq_zero_iff [of k] bitlen_nonneg [of k] by linarith
  have f: "flog2 a = - bitlen k" using False by (simp add: flog2_def k_def b_def)
  have "b \<le> of_int (k + 1)" unfolding k_def by simp
  also have "\<dots> \<le> of_int (2 ^ nat (bitlen k))"
  proof -
    have "k + 1 \<le> 2 ^ nat (bitlen k)" using bb(2) by simp
    then show ?thesis by (rule of_int_le_iff [THEN iffD2])
  qed
  finally have up: "b \<le> 2 ^ nat (bitlen k)" by simp
  have "(of_int (2 ^ nat (bitlen k - 1)) :: rat) \<le> of_int k" using bb(1) by (simp only: of_int_le_iff)
  also have "\<dots> < b" unfolding k_def by linarith
  finally have dn: "2 ^ nat (bitlen k - 1) < b" by simp
  have p1: "pow2 (flog2 a) = 1 / 2 ^ nat (bitlen k)"
    using bl by (simp add: f pow2_def)
  have p2: "pow2 (flog2 a + 1) = 1 / 2 ^ nat (bitlen k - 1)"
  proof (cases "bitlen k = 1")
    case True
    then show ?thesis by (simp add: f pow2_def)
  next
    case False
    then have "1 < bitlen k" using bl by simp
    then have "nat (bitlen k - 1) = nat (- (- bitlen k + 1))" by simp
    then show ?thesis using \<open>1 < bitlen k\<close> by (simp add: f pow2_def)
  qed
  have a: "a = 1 / b" using assms by (simp add: b_def)
  have "1 / 2 ^ nat (bitlen k) \<le> 1 / b"
    using up b1 by (simp add: frac_le)
  moreover have "1 / b < 1 / 2 ^ nat (bitlen k - 1)"
    using dn by (simp add: frac_less2)
  ultimately show ?thesis using p1 p2 a by simp
qed

lemma round_even_bounds: "of_int (round_even x) \<le> x + 1 / 2 \<and> x - 1 / 2 \<le> of_int (round_even x)"
proof -
  define f where "f = \<lfloor>x\<rfloor>"
  define d where "d = x - of_int f"
  have x: "x = of_int f + d" by (simp add: d_def)
  have d: "0 \<le> d" "d < 1" unfolding d_def f_def by linarith+
  have r: "round_even x = (if d < 1 / 2 then f else if 1 / 2 < d then f + 1
      else if even f then f else f + 1)"
    by (simp add: round_even_def Let_def f_def d_def)
  consider "d < 1 / 2" | "1 / 2 < d" | "d = 1 / 2" by linarith
  then show ?thesis
  proof cases
    case 1
    then show ?thesis using d x r by simp
  next
    case 2
    then show ?thesis using d x r by simp
  next
    case 3
    then show ?thesis using x r by simp
  qed
qed

lemma round_even_nonneg: "0 \<le> x \<Longrightarrow> 0 \<le> round_even x"
  by (auto simp: round_even_def Let_def)

lemma pow2_strict_mono: "a < b \<Longrightarrow> pow2 a < pow2 b"
  by (simp add: pow2_powi power_int_strict_increasing)

lemma quantum_le:
  assumes "0 < r"
  shows "pow2 (max (flog2 r) (- 1022) - 52) \<le> max r (pow2 (- 1074))"
proof (cases "- 1022 \<le> flog2 r")
  case True
  have "pow2 (flog2 r - 52) \<le> pow2 (flog2 r)" by (rule pow2_mono) simp
  also have "\<dots> \<le> r" using flog2_bounds [OF assms] by simp
  finally show ?thesis using True by (simp add: max_def)
next
  case False
  then have "max (flog2 r) (- 1022) - 52 = - 1074" by simp
  then show ?thesis by simp
qed

lemma round_f64_pos:
  assumes r: "0 < r" and le: "r \<le> pow2 1000"
  shows "\<exists>x. round_f64 r = Fin x \<and> 0 \<le> x \<and> x \<le> 2 * r + pow2 (- 1074) \<and>
             (pow2 (- 1074) \<le> r \<longrightarrow> r \<le> 2 * x)"
proof -
  define q where "q = pow2 (max (flog2 r) (- 1022) - 52)"
  define n where "n = round_even (r / q)"
  define v where "v = of_int n * q"
  have q: "0 < q" by (simp add: q_def pow2_pos)
  have qle: "q \<le> max r (pow2 (- 1074))" unfolding q_def by (rule quantum_le [OF r])
  have n0: "0 \<le> n" unfolding n_def using r q by (intro round_even_nonneg) simp
  have nb: "of_int n \<le> r / q + 1 / 2" "r / q - 1 / 2 \<le> of_int n"
    unfolding n_def using round_even_bounds [of "r / q"] by simp_all
  have "v \<le> (r / q + 1 / 2) * q" unfolding v_def using nb(1) q by (simp only: mult_le_cancel_right_pos)
  also have "\<dots> = r + q / 2" using q by (simp add: field_simps)
  finally have vu: "v \<le> r + q / 2" .
  have "(r / q - 1 / 2) * q \<le> v" unfolding v_def using nb(2) q by (simp only: mult_le_cancel_right_pos)
  moreover have "(r / q - 1 / 2) * q = r - q / 2" using q by (simp add: field_simps)
  ultimately have vl: "r - q / 2 \<le> v" by simp
  have v0: "0 \<le> v" unfolding v_def using n0 q by simp
  have t: "0 < pow2 (- 1074)" by (rule pow2_pos)
  have vu2: "v \<le> 2 * r + pow2 (- 1074)" using vu qle r t by (auto simp: max_def split: if_splits)
  have "2 * r + pow2 (- 1074) \<le> 2 * pow2 1000 + pow2 1000"
    using le pow2_mono [of "- 1074" 1000] by simp
  also have "\<dots> \<le> 4 * pow2 1000" using pow2_pos [of 1000] by simp
  also have "\<dots> = pow2 2 * pow2 1000" by (simp add: pow2_def)
  also have "\<dots> = pow2 1002" using pow2_add [of 2 1000] by simp
  also have "\<dots> < pow2 1024" by (rule pow2_strict_mono) simp
  finally have fin: "\<not> pow2 1024 \<le> v" using vu2 by simp
  have rf: "round_f64 r = Fin v"
    using r fin by (simp add: round_f64_def Let_def q_def n_def v_def)
  have "r \<le> 2 * v" if "pow2 (- 1074) \<le> r"
  proof -
    have "q \<le> r" using qle that by (simp add: max_def split: if_splits)
    then show ?thesis using vl by simp
  qed
  then show ?thesis using rf v0 vu2 by blast
qed

lemma round_f64_zero: "round_f64 0 = Fin 0"
  by (simp add: round_f64_def)

lemma round_f64_neg:
  assumes r: "r < 0" and le: "- r \<le> pow2 1000"
  shows "\<exists>x. round_f64 r = Fin x \<and> x \<le> 0 \<and> - x \<le> 2 * (- r) + pow2 (- 1074)"
proof -
  have p: "0 < - r" using r by simp
  obtain x where x: "round_f64 (- r) = Fin x" "0 \<le> x" "x \<le> 2 * (- r) + pow2 (- 1074)"
    using round_f64_pos [OF p le] by blast
  have "round_f64 r = Fin (- x)"
    using x(1) r by (simp add: round_f64_def Let_def split: if_splits)
  then show ?thesis using x(2,3) by simp
qed

lemma tiny_le: "pow2 (- 1074) \<le> 1 / 2 ^ 40"
proof -
  have "pow2 (- 1074) \<le> pow2 (- 40)" by (rule pow2_mono) simp
  then show ?thesis by (simp add: pow2_def)
qed

lemma big_ge: "2 ^ 70 \<le> pow2 1000"
proof -
  have "pow2 70 \<le> pow2 1000" by (rule pow2_mono) simp
  then show ?thesis by (simp add: pow2_def)
qed

lemma round_f64_total:
  assumes "\<bar>r\<bar> \<le> 2 ^ 70"
  shows "\<exists>x. round_f64 r = Fin x \<and> (0 \<le> r \<longrightarrow> 0 \<le> x) \<and> (r \<le> 0 \<longrightarrow> x \<le> 0) \<and>
             \<bar>x\<bar> \<le> 2 * \<bar>r\<bar> + 1 \<and> (1 / 2 ^ 40 \<le> r \<longrightarrow> r \<le> 2 * x)"
proof -
  have t1: "pow2 (- 1074) \<le> 1" using tiny_le by (simp add: order_trans [OF tiny_le])
  consider "0 < r" | "r = 0" | "r < 0" by linarith
  then show ?thesis
  proof cases
    case 1
    have "r \<le> pow2 1000" using assms big_ge 1 by simp
    from round_f64_pos [OF 1 this] obtain x where
      x: "round_f64 r = Fin x" "0 \<le> x" "x \<le> 2 * r + pow2 (- 1074)"
        "pow2 (- 1074) \<le> r \<longrightarrow> r \<le> 2 * x" by blast
    have "1 / 2 ^ 40 \<le> r \<longrightarrow> r \<le> 2 * x" using x(4) tiny_le by simp
    then show ?thesis using x(1,2,3) 1 t1 by auto
  next
    case 2
    then show ?thesis by (simp add: round_f64_zero)
  next
    case 3
    have "- r \<le> pow2 1000" using assms big_ge 3 by simp
    from round_f64_neg [OF 3 this] obtain x where
      x: "round_f64 r = Fin x" "x \<le> 0" "- x \<le> 2 * (- r) + pow2 (- 1074)" by blast
    then show ?thesis using 3 t1 by auto
  qed
qed

lemma go_quot_rem_nonneg:
  assumes "0 \<le> d"
  shows "go_quot d Second = d div 1000000000" "go_rem d Second = d mod 1000000000"
proof -
  show q: "go_quot d Second = d div 1000000000"
    using assms by (cases "d = 0") (simp_all add: go_quot_def Second_def)
  show "go_rem d Second = d mod 1000000000"
    unfolding go_rem_def q by (simp add: Second_def minus_mult_div_eq_mod)
qed

lemma go_quot_rem_neg:
  assumes "d < 0"
  shows "go_quot d Second = - ((- d) div 1000000000)" "go_rem d Second = - ((- d) mod 1000000000)"
proof -
  show q: "go_quot d Second = - ((- d) div 1000000000)"
    using assms by (simp add: go_quot_def Second_def)
  have "(- d) mod 1000000000 = - d - 1000000000 * ((- d) div 1000000000)"
    by (simp add: minus_mult_div_eq_mod)
  then show "go_rem d Second = - ((- d) mod 1000000000)"
    unfolding go_rem_def q by (simp add: Second_def)
qed

lemma go_quot_rem_bounds:
  assumes "\<bar>d\<bar> \<le> 2 ^ 63"
  shows "\<bar>go_quot d Second\<bar> \<le> 2 ^ 63" "\<bar>go_rem d Second\<bar> \<le> 1000000000"
    "0 \<le> d \<Longrightarrow> 0 \<le> go_quot d Second \<and> 0 \<le> go_rem d Second"
    "d \<le> 0 \<Longrightarrow> go_quot d Second \<le> 0 \<and> go_rem d Second \<le> 0"
    "0 < d \<Longrightarrow> 1 \<le> go_quot d Second \<or> 1 \<le> go_rem d Second"
proof -
  have A: "\<bar>go_quot d Second\<bar> \<le> 2 ^ 63 \<and> \<bar>go_rem d Second\<bar> \<le> 1000000000 \<and>
      (0 \<le> d \<longrightarrow> 0 \<le> go_quot d Second \<and> 0 \<le> go_rem d Second) \<and>
      (d \<le> 0 \<longrightarrow> go_quot d Second \<le> 0 \<and> go_rem d Second \<le> 0) \<and>
      (0 < d \<longrightarrow> 1 \<le> go_quot d Second \<or> 1 \<le> go_rem d Second)"
  proof (cases "0 \<le> d")
    case True
    have 1: "0 \<le> d div 1000000000" using True by (simp add: div_int_pos_iff)
    have 2: "0 \<le> d mod 1000000000" "d mod 1000000000 < 1000000000" by simp_all
    have 3: "d = 1000000000 * (d div 1000000000) + d mod 1000000000" by simp
    show ?thesis
      unfolding go_quot_rem_nonneg [OF True] using 1 2 3 True assms by linarith
  next
    case False
    then have n: "d < 0" by simp
    define c where "c = - d"
    have c: "0 < c" using n by (simp add: c_def)
    have 1: "0 \<le> c div 1000000000" using c by (simp add: div_int_pos_iff)
    have 2: "0 \<le> c mod 1000000000" "c mod 1000000000 < 1000000000" by simp_all
    have 3: "c = 1000000000 * (c div 1000000000) + c mod 1000000000" by simp
    show ?thesis
      unfolding go_quot_rem_neg [OF n] c_def [symmetric] using 1 2 3 n assms c_def by linarith
  qed
  show "\<bar>go_quot d Second\<bar> \<le> 2 ^ 63" "\<bar>go_rem d Second\<bar> \<le> 1000000000"
    "0 \<le> d \<Longrightarrow> 0 \<le> go_quot d Second \<and> 0 \<le> go_rem d Second"
    "d \<le> 0 \<Longrightarrow> go_quot d Second \<le> 0 \<and> go_rem d Second \<le> 0"
    "0 < d \<Longrightarrow> 1 \<le> go_quot d Second \<or> 1 \<le> go_rem d Second"
    using A by blast+
qed

lemma Seconds_fin:
  assumes d: "\<bar>d\<bar> \<le> 2 ^ 63"
  shows "\<exists>x. Seconds d = Fin x \<and> (0 < d \<longrightarrow> 1 / 2 ^ 42 \<le> x) \<and> (d \<le> 0 \<longrightarrow> x \<le> 0)"
proof -
  define sec where "sec = go_quot d Second"
  define nsec where "nsec = go_rem d Second"
  note b = go_quot_rem_bounds [OF d, folded sec_def nsec_def]
  have rs: "\<bar>(of_int sec :: rat)\<bar> \<le> 2 ^ 70"
  proof -
    have "\<bar>sec\<bar> \<le> 2 ^ 70" using b(1) by simp
    then have "(of_int \<bar>sec\<bar> :: rat) \<le> of_int (2 ^ 70)" by (rule of_int_le_iff [THEN iffD2])
    then show ?thesis by simp
  qed
  obtain s where s: "f64_of_int64 sec = Fin s" "0 \<le> sec \<longrightarrow> 0 \<le> s" "sec \<le> 0 \<longrightarrow> s \<le> 0"
      "\<bar>s\<bar> \<le> 2 * \<bar>of_int sec\<bar> + 1" "1 \<le> sec \<longrightarrow> 1 / 2 \<le> s"
  proof -
    obtain x where x: "round_f64 (of_int sec) = Fin x" "(0::rat) \<le> of_int sec \<longrightarrow> 0 \<le> x"
        "(of_int sec :: rat) \<le> 0 \<longrightarrow> x \<le> 0" "\<bar>x\<bar> \<le> 2 * \<bar>of_int sec\<bar> + 1"
        "1 / 2 ^ 40 \<le> (of_int sec :: rat) \<longrightarrow> of_int sec \<le> 2 * x"
      using round_f64_total [OF rs] by blast
    have "1 / 2 \<le> x" if "1 \<le> sec"
    proof -
      have 1: "(1::rat) \<le> of_int sec" using that by simp
      then have "(1 / 2 ^ 40 :: rat) \<le> of_int sec" by simp
      then show ?thesis using x(5) 1 by simp
    qed
    then show ?thesis using that [of x] x by (simp add: f64_of_int64_def)
  qed
  have rn: "\<bar>(of_int nsec :: rat)\<bar> \<le> 1000000000"
  proof -
    have "(of_int \<bar>nsec\<bar> :: rat) \<le> of_int 1000000000" using b(2) by (rule of_int_le_iff [THEN iffD2])
    then show ?thesis by simp
  qed
  obtain n where n: "f64_of_int64 nsec = Fin n" "0 \<le> nsec \<longrightarrow> 0 \<le> n" "nsec \<le> 0 \<longrightarrow> n \<le> 0"
      "\<bar>n\<bar> \<le> 2000000001" "1 \<le> nsec \<longrightarrow> 1 / 2 \<le> n"
  proof -
    have "\<bar>(of_int nsec :: rat)\<bar> \<le> 2 ^ 70" using rn by simp
    from round_f64_total [OF this] obtain x where
      x: "round_f64 (of_int nsec) = Fin x" "(0::rat) \<le> of_int nsec \<longrightarrow> 0 \<le> x"
        "(of_int nsec :: rat) \<le> 0 \<longrightarrow> x \<le> 0" "\<bar>x\<bar> \<le> 2 * \<bar>of_int nsec\<bar> + 1"
        "1 / 2 ^ 40 \<le> (of_int nsec :: rat) \<longrightarrow> of_int nsec \<le> 2 * x"
      by blast
    have "1 / 2 \<le> x" if "1 \<le> nsec"
    proof -
      have 1: "(1::rat) \<le> of_int nsec" using that by simp
      then have "(1 / 2 ^ 40 :: rat) \<le> of_int nsec" by simp
      then show ?thesis using x(5) 1 by simp
    qed
    moreover have "\<bar>x\<bar> \<le> 2000000001" using x(4) rn by simp
    ultimately show ?thesis using that [of x] x by (simp add: f64_of_int64_def)
  qed
  define y where "y = n / 1000000000"
  have y: "\<bar>y\<bar> \<le> 3" "0 \<le> n \<longrightarrow> 0 \<le> y" "n \<le> 0 \<longrightarrow> y \<le> 0" "1 / 2 \<le> n \<longrightarrow> 1 / 2 ^ 40 \<le> y"
    using n(4) unfolding y_def by (auto simp: field_simps abs_le_iff)
  obtain n' where n': "f64_div (Fin n) (Fin 1000000000) = Fin n'" "0 \<le> y \<longrightarrow> 0 \<le> n'"
      "y \<le> 0 \<longrightarrow> n' \<le> 0" "\<bar>n'\<bar> \<le> 7" "1 / 2 ^ 40 \<le> y \<longrightarrow> 1 / 2 ^ 41 \<le> n'"
  proof -
    have "\<bar>y\<bar> \<le> 2 ^ 70" using y(1) by simp
    from round_f64_total [OF this] obtain x where
      x: "round_f64 y = Fin x" "0 \<le> y \<longrightarrow> 0 \<le> x" "y \<le> 0 \<longrightarrow> x \<le> 0" "\<bar>x\<bar> \<le> 2 * \<bar>y\<bar> + 1"
        "1 / 2 ^ 40 \<le> y \<longrightarrow> y \<le> 2 * x"
      by blast
    have "\<bar>x\<bar> \<le> 7" using x(4) y(1) by simp
    moreover have "1 / 2 ^ 40 \<le> y \<longrightarrow> 1 / 2 ^ 41 \<le> x" using x(5) by auto
    ultimately show ?thesis using that [of x] x by (simp add: y_def)
  qed
  define z where "z = s + n'"
  have zb: "\<bar>z\<bar> \<le> 2 ^ 70"
  proof -
    have "\<bar>s\<bar> \<le> 2 * 2 ^ 70 / 64 + 1" using s(4) rs b(1)
    proof -
      have "(of_int \<bar>sec\<bar> :: rat) \<le> of_int (2 ^ 63)" using b(1) by (rule of_int_le_iff [THEN iffD2])
      then have "\<bar>(of_int sec :: rat)\<bar> \<le> 2 ^ 63" by simp
      then show ?thesis using s(4) by simp
    qed
    then show ?thesis unfolding z_def using n'(4) by simp
  qed
  from round_f64_total [OF zb] obtain x where
    x: "round_f64 z = Fin x" "0 \<le> z \<longrightarrow> 0 \<le> x" "z \<le> 0 \<longrightarrow> x \<le> 0"
      "1 / 2 ^ 40 \<le> z \<longrightarrow> z \<le> 2 * x"
    by blast
  have S: "Seconds d = Fin x"
    using s(1) n(1) n'(1) x(1) by (simp add: Seconds_def Let_def sec_def nsec_def z_def)
  have neg: "x \<le> 0" if "d \<le> 0"
  proof -
    have "sec \<le> 0" "nsec \<le> 0" using b(4) that by simp_all
    then have "s \<le> 0" "n' \<le> 0" using s(3) n(3) y(3) n'(3) by simp_all
    then show ?thesis using x(3) by (simp add: z_def)
  qed
  have pos: "1 / 2 ^ 42 \<le> x" if "0 < d"
  proof -
    have sn: "0 \<le> sec" "0 \<le> nsec" using b(3) that by simp_all
    then have nn: "0 \<le> s" "0 \<le> n'" using s(2) n(2) y(2) n'(2) by simp_all
    have "1 / 2 ^ 41 \<le> z"
    proof (cases "1 \<le> sec")
      case True
      then have "1 / 2 \<le> s" using s(5) by simp
      then show ?thesis using nn(2) by (simp add: z_def)
    next
      case False
      then have "1 \<le> nsec" using b(5) that by simp
      then have "1 / 2 ^ 41 \<le> n'" using n(5) y(4) n'(5) by simp
      then show ?thesis using nn(1) by (simp add: z_def)
    qed
    moreover have "pow2 (- 1074) \<le> 1 / 2 ^ 41"
    proof -
      have "pow2 (- 1074) \<le> pow2 (- 41)" by (rule pow2_mono) simp
      then show ?thesis by (simp add: pow2_def)
    qed
    ultimately have "pow2 (- 1074) \<le> z" "0 < z" "1 / 2 ^ 41 \<le> z"
    proof -
      assume a: "1 / 2 ^ 41 \<le> z" "pow2 (- 1074) \<le> 1 / 2 ^ 41"
      show "pow2 (- 1074) \<le> z" using a by simp
      have "(0::rat) < 1 / 2 ^ 41" by simp
      then show "0 < z" using a(1) by (rule less_le_trans)
      show "1 / 2 ^ 41 \<le> z" by (rule a(1))
    qed
    have "\<bar>z\<bar> \<le> pow2 1000" using zb big_ge by simp
    then have "z \<le> pow2 1000" by simp
    from round_f64_pos [OF \<open>0 < z\<close> this] \<open>pow2 (- 1074) \<le> z\<close> x(1) have "z \<le> 2 * x" by auto
    then show ?thesis using \<open>1 / 2 ^ 41 \<le> z\<close> by simp
  qed
  show ?thesis using S neg pos by blast
qed

lemma Sub_bounds: "\<bar>Sub t u\<bar> \<le> 2 ^ 63"
  by (auto simp: Sub_def Let_def maxDuration_def minDuration_def abs_le_iff)

lemma Sub_sign: "(0 < Sub t u) = (u < t)"
  by (simp add: Sub_def Let_def maxDuration_def minDuration_def)

lemma pollDuration_cases:
  "(t \<le> u \<longrightarrow> pollDuration u t = Fin 1) \<and>
   (u < t \<longrightarrow> pollDuration u t = Seconds (Sub t u)) \<and>
   (\<exists>x. pollDuration u t = Fin x \<and> 1 / 2 ^ 42 \<le> x)"
proof -
  obtain x where x: "Seconds (Sub t u) = Fin x" "0 < Sub t u \<longrightarrow> 1 / 2 ^ 42 \<le> x"
      "Sub t u \<le> 0 \<longrightarrow> x \<le> 0"
    using Seconds_fin [OF Sub_bounds [of t u]] by blast
  show ?thesis
  proof (cases "u < t")
    case True
    then have 1: "1 / 2 ^ 42 \<le> x" using x(2) Sub_sign [of t u] by simp
    have "(0::rat) < 1 / 2 ^ 42" by simp
    then have "0 < x" using 1 by (rule less_le_trans)
    then show ?thesis using True x(1) 1
      by (simp add: pollDuration_def Let_def f64_le_def f64_eq_def)
  next
    case False
    then have "x \<le> 0" using x(3) Sub_sign [of t u] by simp
    then show ?thesis using False x(1)
      by (auto simp: pollDuration_def Let_def f64_le_def f64_eq_def)
  qed
qed

lemma f64_of_uint64_fin: "\<exists>a. f64_of_uint64 w = Fin a \<and> 0 \<le> a \<and> a \<le> 2 ^ 66"
proof -
  define n where "n = unat w"
  have "n < 2 ^ 64" unfolding n_def using unsigned_less [of w] by simp
  then have "(of_nat n :: rat) < of_nat (2 ^ 64)" by (rule of_nat_less_iff [THEN iffD2])
  then have u: "(of_nat n :: rat) < 2 ^ 64" by simp
  have n0: "(0::rat) \<le> of_nat n" by simp
  have "(2::rat) ^ 64 \<le> 2 ^ 70" by simp
  then have "(of_nat n :: rat) \<le> 2 ^ 70" using u by (simp only: less_le_trans less_imp_le)
  then have "\<bar>(of_nat n :: rat)\<bar> \<le> 2 ^ 70" by simp
  from round_f64_total [OF this] obtain x where
    x: "round_f64 (of_nat n) = Fin x" "(0::rat) \<le> of_nat n \<longrightarrow> 0 \<le> x"
      "\<bar>x\<bar> \<le> 2 * \<bar>(of_nat n :: rat)\<bar> + 1" by blast
  have "0 \<le> x" using x(2) n0 by blast
  moreover have "x \<le> 2 ^ 66"
  proof -
    have "\<bar>x\<bar> \<le> 2 * of_nat n + 1" using x(3) by simp
    also have "\<dots> \<le> 2 * 2 ^ 64 + 1" using u by simp
    also have "\<dots> \<le> 2 ^ 66" by simp
    finally show ?thesis by simp
  qed
  moreover have "f64_of_uint64 w = Fin x" using x(1) by (simp only: f64_of_uint64_def n_def)
  ultimately show ?thesis by blast
qed

lemma rate_quotient:
  assumes x: "1 / 2 ^ 42 \<le> x"
  shows "\<exists>a q. f64_of_uint64 w = Fin a \<and> 0 \<le> a \<and> f64_div (Fin a) (Fin x) = Fin q \<and>
           round_f64 (a / x) = Fin q \<and> 0 \<le> q \<and>
           uint64_of_f64 oor (f64_div (f64_of_uint64 w) (Fin x)) =
             (if q < 2 ^ 64 then word_of_int \<lfloor>q\<rfloor> else oor (Fin q))"
proof -
  obtain a where a: "f64_of_uint64 w = Fin a" "0 \<le> a" "a \<le> 2 ^ 66"
    using f64_of_uint64_fin by blast
  have x0: "0 < x" using x by (rule less_le_trans [rotated]) simp
  have "a / x \<le> 2 ^ 66 * 2 ^ 42"
  proof -
    have "a \<le> 2 ^ 66 * 2 ^ 42 * x"
    proof -
      have "1 \<le> 2 ^ 42 * x" using x by (simp add: field_simps)
      then have "(2 ^ 66 :: rat) * 1 \<le> 2 ^ 66 * (2 ^ 42 * x)" by (rule mult_left_mono) simp
      then show ?thesis using a(3) by simp
    qed
    then show ?thesis using x0 by (simp add: pos_divide_le_eq)
  qed
  also have "\<dots> = pow2 108" by (simp add: pow2_def)
  also have "\<dots> \<le> pow2 1000" by (rule pow2_mono) simp
  finally have le: "a / x \<le> pow2 1000" .
  have nn: "0 \<le> a / x" using a(2) x0 by simp
  obtain q where q: "round_f64 (a / x) = Fin q" "0 \<le> q"
  proof (cases "a / x = 0")
    case True
    have "round_f64 (a / x) = Fin 0" unfolding True by (rule round_f64_zero)
    then show ?thesis using that [of 0] by simp
  next
    case False
    with nn have "0 < a / x" by (rule le_neq_trans [OF _ not_sym])
    from round_f64_pos [OF this le] show ?thesis using that by blast
  qed
  have d: "f64_div (Fin a) (Fin x) = Fin q" using q(1) x0 by simp
  have "uint64_of_f64 oor (Fin q) = (if q < 2 ^ 64 then word_of_int \<lfloor>q\<rfloor> else oor (Fin q))"
    using q(2) by (simp add: uint64_of_f64_def)
  then show ?thesis using a(1,2) d q by auto
qed

subsection \<open>The system-wide part\<close>

lemma diskLoop_map_filter:
  "diskLoop env parts disks = disks @ List.map_filter (usageRecord env) parts"
  by (induction parts arbitrary: disks)
    (auto simp: usageRecord_def List.map_filter_simps split: sum.splits)

lemma GetStats_fst: "fst (fst (GetStats env m)) = fst (processSection env m (systemSection env))"
  by (simp add: GetStats_def split: prod.splits)

lemma GetStats_err: "snd (fst (GetStats env m)) = None"
  by (simp add: GetStats_def split: prod.splits)

lemma GetStats_snd: "snd (GetStats env m) = snd (processSection env m (systemSection env))"
  by (simp add: GetStats_def split: prod.splits)

lemma processSection_fields:
  "CPUUsage (fst (processSection env m s)) = CPUUsage s"
  "MemoryTotal (fst (processSection env m s)) = MemoryTotal s"
  "MemoryUsed (fst (processSection env m s)) = MemoryUsed s"
  "MemoryFree (fst (processSection env m s)) = MemoryFree s"
  "Disks (fst (processSection env m s)) = Disks s"
  "Uptime (fst (processSection env m s)) = Uptime s"
  "Hostname (fst (processSection env m s)) = Hostname s"
  "OS (fst (processSection env m s)) = OS s"
  "Platform (fst (processSection env m s)) = Platform s"
  "NetSent (fst (processSection env m s)) = NetSent s"
  "NetRecv (fst (processSection env m s)) = NetRecv s"
  by (simp_all add: processSection_def Let_def split: sum.splits prod.splits)

lemma systemSection_Disks:
  "Disks (systemSection env) =
     (case disk_Partitions env of Inl e \<Rightarrow> [] | Inr parts \<Rightarrow> List.map_filter (usageRecord env) parts)"
  by (simp add: systemSection_def netSection_def hostSection_def diskSection_def memSection_def
      cpuSection_def zeroStats_def diskLoop_map_filter split: sum.splits)

lemma Path_usageRecord: "usageRecord env p = Some d \<Longrightarrow> Path d = Mountpoint p"
  by (auto simp: usageRecord_def split: if_splits sum.splits)

lemma map_Path_map_filter:
  "map Path (List.map_filter (usageRecord env) parts) =
   map Mountpoint (filter (\<lambda>p. usageRecord env p \<noteq> None) parts)"
  by (induction parts) (auto simp: List.map_filter_simps Path_usageRecord split: option.splits)

lemma cpuSection_fields:
  "CPUUsage (cpuSection env s) =
     (case cpu_Percent env of Inl e \<Rightarrow> CPUUsage s | Inr cs \<Rightarrow> (case cs of [] \<Rightarrow> CPUUsage s | c # cs' \<Rightarrow> c))"
  "MemoryTotal (cpuSection env s) = MemoryTotal s" "MemoryUsed (cpuSection env s) = MemoryUsed s"
  "MemoryFree (cpuSection env s) = MemoryFree s" "Disks (cpuSection env s) = Disks s"
  "Uptime (cpuSection env s) = Uptime s" "Hostname (cpuSection env s) = Hostname s"
  "OS (cpuSection env s) = OS s" "Platform (cpuSection env s) = Platform s"
  "NetSent (cpuSection env s) = NetSent s" "NetRecv (cpuSection env s) = NetRecv s"
  by (simp_all add: cpuSection_def split: sum.splits list.splits)

lemma memSection_fields:
  "CPUUsage (memSection env s) = CPUUsage s"
  "MemoryTotal (memSection env s) = (case mem_VirtualMemory env of Inl e \<Rightarrow> MemoryTotal s | Inr vm \<Rightarrow> vm_Total vm)"
  "MemoryUsed (memSection env s) = (case mem_VirtualMemory env of Inl e \<Rightarrow> MemoryUsed s | Inr vm \<Rightarrow> vm_Used vm)"
  "MemoryFree (memSection env s) = (case mem_VirtualMemory env of Inl e \<Rightarrow> MemoryFree s | Inr vm \<Rightarrow> vm_Free vm)"
  "Disks (memSection env s) = Disks s"
  "Uptime (memSection env s) = Uptime s" "Hostname (memSection env s) = Hostname s"
  "OS (memSection env s) = OS s" "Platform (memSection env s) = Platform s"
  "NetSent (memSection env s) = NetSent s" "NetRecv (memSection env s) = NetRecv s"
  by (simp_all add: memSection_def split: sum.splits)

lemma diskSection_fields:
  "CPUUsage (diskSection env s) = CPUUsage s"
  "MemoryTotal (diskSection env s) = MemoryTotal s" "MemoryUsed (diskSection env s) = MemoryUsed s"
  "MemoryFree (diskSection env s) = MemoryFree s"
  "Disks (diskSection env s) =
     (case disk_Partitions env of Inl e \<Rightarrow> Disks s | Inr parts \<Rightarrow> diskLoop env parts (Disks s))"
  "Uptime (diskSection env s) = Uptime s" "Hostname (diskSection env s) = Hostname s"
  "OS (diskSection env s) = OS s" "Platform (diskSection env s) = Platform s"
  "NetSent (diskSection env s) = NetSent s" "NetRecv (diskSection env s) = NetRecv s"
  by (simp_all add: diskSection_def split: sum.splits)

lemma hostSection_fields:
  "CPUUsage (hostSection env s) = CPUUsage s"
  "MemoryTotal (hostSection env s) = MemoryTotal s" "MemoryUsed (hostSection env s) = MemoryUsed s"
  "MemoryFree (hostSection env s) = MemoryFree s" "Disks (hostSection env s) = Disks s"
  "Uptime (hostSection env s) = (case host_Info env of Inl e \<Rightarrow> Uptime s | Inr h \<Rightarrow> info_Uptime h)"
  "Hostname (hostSection env s) = (case host_Info env of Inl e \<Rightarrow> Hostname s | Inr h \<Rightarrow> info_Hostname h)"
  "OS (hostSection env s) = (case host_Info env of Inl e \<Rightarrow> OS s | Inr h \<Rightarrow> info_OS h)"
  "Platform (hostSection env s) = (case host_Info env of Inl e \<Rightarrow> Platform s | Inr h \<Rightarrow> info_Platform h)"
  "NetSent (hostSection env s) = NetSent s" "NetRecv (hostSection env s) = NetRecv s"
  by (simp_all add: hostSection_def split: sum.splits)

lemma netSection_fields:
  "CPUUsage (netSection env s) = CPUUsage s"
  "MemoryTotal (netSection env s) = MemoryTotal s" "MemoryUsed (netSection env s) = MemoryUsed s"
  "MemoryFree (netSection env s) = MemoryFree s" "Disks (netSection env s) = Disks s"
  "Uptime (netSection env s) = Uptime s" "Hostname (netSection env s) = Hostname s"
  "OS (netSection env s) = OS s" "Platform (netSection env s) = Platform s"
  "NetSent (netSection env s) =
     (case net_IOCounters env of Inl e \<Rightarrow> NetSent s | Inr n \<Rightarrow> (case n of [] \<Rightarrow> NetSent s | c # cs \<Rightarrow> BytesSent c))"
  "NetRecv (netSection env s) =
     (case net_IOCounters env of Inl e \<Rightarrow> NetRecv s | Inr n \<Rightarrow> (case n of [] \<Rightarrow> NetRecv s | c # cs \<Rightarrow> BytesRecv c))"
  by (simp_all add: netSection_def split: sum.splits list.splits)

lemmas section_fields = cpuSection_fields memSection_fields diskSection_fields hostSection_fields
  netSection_fields

lemma zeroStats_fields:
  "CPUUsage zeroStats = Fin 0" "MemoryTotal zeroStats = 0" "MemoryUsed zeroStats = 0"
  "MemoryFree zeroStats = 0" "Disks zeroStats = []" "Uptime zeroStats = 0"
  "Hostname zeroStats = []" "OS zeroStats = []" "Platform zeroStats = []"
  "NetSent zeroStats = 0" "NetRecv zeroStats = 0"
  by (simp_all add: zeroStats_def)

lemma systemSection_fields:
  "CPUUsage (systemSection env) =
     (case cpu_Percent env of Inl e \<Rightarrow> Fin 0 | Inr cs \<Rightarrow> (case cs of [] \<Rightarrow> Fin 0 | c # cs' \<Rightarrow> c))"
  "MemoryTotal (systemSection env) = (case mem_VirtualMemory env of Inl e \<Rightarrow> 0 | Inr vm \<Rightarrow> vm_Total vm)"
  "MemoryUsed (systemSection env) = (case mem_VirtualMemory env of Inl e \<Rightarrow> 0 | Inr vm \<Rightarrow> vm_Used vm)"
  "MemoryFree (systemSection env) = (case mem_VirtualMemory env of Inl e \<Rightarrow> 0 | Inr vm \<Rightarrow> vm_Free vm)"
  "Disks (systemSection env) =
     (case disk_Partitions env of Inl e \<Rightarrow> [] | Inr parts \<Rightarrow> diskLoop env parts [])"
  "Uptime (systemSection env) = (case host_Info env of Inl e \<Rightarrow> 0 | Inr h \<Rightarrow> info_Uptime h)"
  "Hostname (systemSection env) = (case host_Info env of Inl e \<Rightarrow> [] | Inr h \<Rightarrow> info_Hostname h)"
  "OS (systemSection env) = (case host_Info env of Inl e \<Rightarrow> [] | Inr h \<Rightarrow> info_OS h)"
  "Platform (systemSection env) = (case host_Info env of Inl e \<Rightarrow> [] | Inr h \<Rightarrow> info_Platform h)"
  "NetSent (systemSection env) =
     (case net_IOCounters env of Inl e \<Rightarrow> 0 | Inr n \<Rightarrow> (case n of [] \<Rightarrow> 0 | c # cs \<Rightarrow> BytesSent c))"
  "NetRecv (systemSection env) =
     (case net_IOCounters env of Inl e \<Rightarrow> 0 | Inr n \<Rightarrow> (case n of [] \<Rightarrow> 0 | c # cs \<Rightarrow> BytesRecv c))"
  unfolding systemSection_def by (simp_all only: section_fields zeroStats_fields)


subsection \<open>The loop over the PIDs and the cleanup\<close>

lemma acquire_Some:
  assumes "acquire env m pid = Some (proc, m1)"
  shows "procs m1 = (procs m)(pid \<mapsto> proc)" "lastStats m1 = lastStats m" "lastTime m1 = lastTime m"
  using assms by (auto simp: acquire_def split: option.splits sum.splits)

lemma procStep_None:
  "acquire env (fst st) pid = None \<Longrightarrow> procStep env d pid st = st"
  by (simp add: procStep_def)

lemma procStep_Some:
  "acquire env (fst st) pid = Some (proc, m1) \<Longrightarrow>
   procStep env d pid st =
     (m1\<lparr>lastStats := (lastStats m1)(pid \<mapsto> sampleProc env d (lastStats m1) pid proc)\<rparr>,
      snd st @ [sampleProc env d (lastStats m1) pid proc])"
  by (simp add: procStep_def Let_def)

lemma procStep_lastTime: "lastTime (fst (procStep env d pid st)) = lastTime (fst st)"
proof (cases "acquire env (fst st) pid")
  case None
  then show ?thesis by (simp add: procStep_None)
next
  case (Some a)
  then obtain proc m1 where "acquire env (fst st) pid = Some (proc, m1)" by (cases a) auto
  then show ?thesis using acquire_Some(3) [of env "fst st" pid proc m1] by (simp add: procStep_Some)
qed

lemma procLoop_lastTime: "lastTime (fst (procLoop env d pids st)) = lastTime (fst st)"
  by (induction pids arbitrary: st) (simp_all add: procStep_lastTime)

lemma procStep_cachesAgree:
  assumes "cachesAgree (fst st)"
  shows "cachesAgree (fst (procStep env d pid st))"
proof (cases "acquire env (fst st) pid")
  case None
  then show ?thesis using assms by (simp add: procStep_None)
next
  case (Some a)
  then obtain proc m1 where a: "acquire env (fst st) pid = Some (proc, m1)" by (cases a) auto
  show ?thesis
    using assms acquire_Some(1,2) [OF a] by (auto simp: procStep_Some [OF a] cachesAgree_def)
qed

lemma procLoop_cachesAgree:
  "cachesAgree (fst st) \<Longrightarrow> cachesAgree (fst (procLoop env d pids st))"
  by (induction pids arbitrary: st) (simp_all add: procStep_cachesAgree)

lemma cleanup_simps:
  "procs (cleanup pids m) pid = (if pid \<in> set pids then procs m pid else None)"
  "lastStats (cleanup pids m) pid =
     (if procs m pid \<noteq> None \<and> pid \<notin> set pids then None else lastStats m pid)"
  "lastTime (cleanup pids m) = lastTime m"
  by (simp_all add: cleanup_def activePids_def)

lemma cleanup_cachesAgree:
  assumes "cachesAgree m"
  shows "cachesAgree (cleanup pids m)"
    and "dom (procs (cleanup pids m)) \<subseteq> set pids"
    and "dom (lastStats (cleanup pids m)) \<subseteq> set pids"
  using assms unfolding cachesAgree_def
  by (auto simp: cleanup_simps dom_def subset_iff split: if_splits)

lemma purgeLoop_closed:
  "purgeLoop pids keys m =
     m\<lparr>procs := (\<lambda>pid. if pid \<in> set keys \<and> \<not> activePids pids pid then None else procs m pid),
       lastStats := (\<lambda>pid. if pid \<in> set keys \<and> \<not> activePids pids pid then None
                            else lastStats m pid)\<rparr>"
proof (induction keys arbitrary: m)
  case Nil
  then show ?case by simp
next
  case (Cons k keys)
  show ?case
    unfolding purgeLoop.simps Cons.IH
    by (auto simp: purgeStep_def fun_eq_iff)
qed

lemma purgeLoop_cleanup:
  assumes "set keys = dom (procs m)"
  shows "purgeLoop pids keys m = cleanup pids m"
proof -
  have "(\<lambda>pid. if pid \<in> set keys \<and> \<not> activePids pids pid then None else procs m pid) =
        (\<lambda>pid. if activePids pids pid then procs m pid else None)"
    using assms by (auto simp: fun_eq_iff)
  moreover have "(\<lambda>pid. if pid \<in> set keys \<and> \<not> activePids pids pid then None else lastStats m pid) =
        (\<lambda>pid. if procs m pid \<noteq> None \<and> \<not> activePids pids pid then None else lastStats m pid)"
    using assms by (auto simp: fun_eq_iff)
  ultimately show ?thesis by (simp add: purgeLoop_closed cleanup_def)
qed

lemma processSection_Inl:
  "process_Pids env = Inl e \<Longrightarrow> processSection env m s = (s, m)"
  by (simp add: processSection_def)

lemma processSection_Inr:
  "process_Pids env = Inr pids \<Longrightarrow>
   processSection env m s =
     (s\<lparr>TopCPU := getTop (snd (pollState env m pids)) lessCPU 5,
        TopMem := getTop (snd (pollState env m pids)) lessMem 5,
        TopDisk := getTop (snd (pollState env m pids)) lessDisk 5,
        TopNet := getTop (snd (pollState env m pids)) lessNet 5\<rparr>,
      cleanup pids ((fst (pollState env m pids))\<lparr>lastTime := time_Now env\<rparr>))"
  by (simp add: processSection_def Let_def split: prod.splits)

lemma GetStats_cachesAgree:
  assumes "cachesAgree m"
  shows "cachesAgree (snd (GetStats env m))"
proof (cases "process_Pids env")
  case (Inl e)
  then show ?thesis using assms by (simp add: GetStats_snd processSection_Inl)
next
  case (Inr pids)
  have "cachesAgree (fst (pollState env m pids))"
    unfolding pollState_def using assms by (simp add: procLoop_cachesAgree)
  then have "cachesAgree ((fst (pollState env m pids))\<lparr>lastTime := time_Now env\<rparr>)"
    by (simp add: cachesAgree_def)
  then show ?thesis
    using cleanup_cachesAgree(1) by (simp add: GetStats_snd processSection_Inr [OF Inr])
qed

lemma reachable_cachesAgree: "reachable m \<Longrightarrow> cachesAgree m"
proof (induction rule: reachable.induct)
  case (init now)
  then show ?case by (simp add: cachesAgree_def NewMonitor_def)
next
  case (poll m env)
  then show ?case by (simp add: GetStats_cachesAgree)
qed

lemma GetStats_purged:
  assumes "cachesAgree m" "process_Pids env = Inr pids"
  shows "dom (procs (snd (GetStats env m))) \<subseteq> set pids"
    and "dom (lastStats (snd (GetStats env m))) \<subseteq> set pids"
proof -
  have "cachesAgree (fst (pollState env m pids))"
    unfolding pollState_def using assms(1) by (simp add: procLoop_cachesAgree)
  then have c: "cachesAgree ((fst (pollState env m pids))\<lparr>lastTime := time_Now env\<rparr>)"
    by (simp add: cachesAgree_def)
  show "dom (procs (snd (GetStats env m))) \<subseteq> set pids"
    using cleanup_cachesAgree(2) [OF c] by (simp add: GetStats_snd processSection_Inr [OF assms(2)])
  show "dom (lastStats (snd (GetStats env m))) \<subseteq> set pids"
    using cleanup_cachesAgree(3) [OF c] by (simp add: GetStats_snd processSection_Inr [OF assms(2)])
qed

lemma GetStats_lastTime_Inr:
  "process_Pids env = Inr pids \<Longrightarrow> lastTime (snd (GetStats env m)) = time_Now env"
  by (simp add: GetStats_snd processSection_Inr cleanup_simps)

lemma GetStats_Inl:
  "process_Pids env = Inl e \<Longrightarrow> snd (GetStats env m) = m"
  by (simp add: GetStats_snd processSection_Inl)

lemma procLoop_append:
  "procLoop env d (xs @ ys) st = procLoop env d ys (procLoop env d xs st)"
  by (induction xs arbitrary: st) simp_all

lemma procStep_other:
  assumes "q \<noteq> pid"
  shows "lastStats (fst (procStep env d pid st)) q = lastStats (fst st) q"
    and "procs (fst (procStep env d pid st)) q = procs (fst st) q"
proof -
  show "lastStats (fst (procStep env d pid st)) q = lastStats (fst st) q"
  proof (cases "acquire env (fst st) pid")
    case None
    then show ?thesis by (simp add: procStep_None)
  next
    case (Some a)
    then obtain proc m1 where a: "acquire env (fst st) pid = Some (proc, m1)" by (cases a) auto
    show ?thesis using assms acquire_Some(2) [OF a] by (simp add: procStep_Some [OF a])
  qed
  show "procs (fst (procStep env d pid st)) q = procs (fst st) q"
  proof (cases "acquire env (fst st) pid")
    case None
    then show ?thesis by (simp add: procStep_None)
  next
    case (Some a)
    then obtain proc m1 where a: "acquire env (fst st) pid = Some (proc, m1)" by (cases a) auto
    show ?thesis using assms acquire_Some(1) [OF a] by (simp add: procStep_Some [OF a])
  qed
qed

lemma procLoop_other:
  "q \<notin> set pids \<Longrightarrow> lastStats (fst (procLoop env d pids st)) q = lastStats (fst st) q"
  by (induction pids arbitrary: st) (simp_all add: procStep_other)

lemma procStep_samples_prefix: "\<exists>zs. snd (procStep env d pid st) = snd st @ zs"
proof (cases "acquire env (fst st) pid")
  case None
  then show ?thesis by (simp add: procStep_None)
next
  case (Some a)
  then obtain proc m1 where a: "acquire env (fst st) pid = Some (proc, m1)" by (cases a) auto
  show ?thesis by (simp add: procStep_Some [OF a])
qed

lemma procLoop_samples_prefix: "\<exists>zs. snd (procLoop env d pids st) = snd st @ zs"
proof (induction pids arbitrary: st)
  case Nil
  then show ?case by simp
next
  case (Cons pid pids)
  obtain zs where 1: "snd (procStep env d pid st) = snd st @ zs"
    using procStep_samples_prefix by blast
  obtain zs' where "snd (procLoop env d pids (procStep env d pid st)) = snd (procStep env d pid st) @ zs'"
    using Cons.IH by blast
  then show ?case using 1 by simp
qed

lemma sampleProc_fields:
  "PID (sampleProc env d L pid proc) = pid"
  "Name (sampleProc env d L pid proc) = stringOr (proc_Name env proc)"
  "CPU (sampleProc env d L pid proc) = (case proc_CPUPercent env proc of Inl e \<Rightarrow> Fin 0 | Inr c \<Rightarrow> c)"
  "Mem (sampleProc env d L pid proc) = (case proc_MemoryInfo env proc of Inl e \<Rightarrow> 0 | Inr mi \<Rightarrow> RSS mi)"
  "DiskIO (sampleProc env d L pid proc) =
     (case proc_IOCounters env proc of Inl e \<Rightarrow> 0 | Inr c \<Rightarrow> ReadBytes c + WriteBytes c)"
  "DiskRate (sampleProc env d L pid proc) =
     diskRateOf (uint64_out_of_range env) (L pid) (DiskIO (sampleProc env d L pid proc)) d"
  "NetConns (sampleProc env d L pid proc) =
     (case proc_Connections env proc of Inl e \<Rightarrow> 0 | Inr cs \<Rightarrow> int (length cs))"
  by (simp_all add: sampleProc_def Let_def stringOr_def ptrOr_def sliceOr_def split: sum.splits)

lemma diskRateOf_cases:
  "diskRateOf oor None io d = 0"
  "io < DiskIO l \<Longrightarrow> diskRateOf oor (Some l) io d = 0"
  "DiskIO l \<le> io \<Longrightarrow> diskRateOf oor (Some l) io d =
     uint64_of_f64 oor (f64_div (f64_of_uint64 (io - DiskIO l)) d)"
  by (auto simp: diskRateOf_def dest: leD)

lemma diskRateOf_zero:
  assumes "0 < x"
  shows "diskRateOf oor L 0 (Fin x) = 0"
proof (cases L)
  case None
  then show ?thesis by (simp add: diskRateOf_def)
next
  case (Some l)
  have "uint64_of_f64 oor (f64_div (f64_of_uint64 0) (Fin x)) = 0"
    using assms by (simp add: f64_of_uint64_def round_f64_zero uint64_of_f64_def)
  then show ?thesis using Some by (simp add: diskRateOf_def)
qed

lemma pollState_snoc:
  "pollState env m (pre @ [pid]) =
     procStep env (pollDuration (lastTime m) (time_Now env)) pid (pollState env m pre)"
  by (simp add: pollState_def procLoop_append)

lemma pollState_cache:
  "pid \<notin> set pre \<Longrightarrow> lastStats (fst (pollState env m pre)) pid = lastStats m pid"
  by (simp add: pollState_def procLoop_other)

lemma pollState_mem:
  assumes "snd (pollState env m (pre @ [pid])) = infos @ [info]"
  shows "info \<in> set (snd (pollState env m (pre @ pid # post)))"
proof -
  have "pollState env m (pre @ pid # post) =
      procLoop env (pollDuration (lastTime m) (time_Now env)) post (pollState env m (pre @ [pid]))"
    using procLoop_append [of env _ "pre @ [pid]" post "(m, [])"] by (simp add: pollState_def)
  then obtain zs where "snd (pollState env m (pre @ pid # post)) = (infos @ [info]) @ zs"
    using procLoop_samples_prefix [of env _ post "pollState env m (pre @ [pid])"] assms by auto
  then show ?thesis by simp
qed

lemma sampleProc_cong:
  "sameProcessAnswers env env' \<Longrightarrow> sampleProc env' = sampleProc env"
  by (intro ext) (simp add: sameProcessAnswers_def sampleProc_def)

lemma acquire_cong:
  "sameProcessAnswers env env' \<Longrightarrow> acquire env' = acquire env"
  by (intro ext) (simp add: sameProcessAnswers_def acquire_def split: option.splits)

lemma procStep_cong:
  "sameProcessAnswers env env' \<Longrightarrow> procStep env' d pid st = procStep env d pid st"
  unfolding procStep_def by (simp only: sampleProc_cong acquire_cong)

lemma procLoop_cong:
  "sameProcessAnswers env env' \<Longrightarrow> procLoop env' d pids st = procLoop env d pids st"
  by (induction pids arbitrary: st) (simp_all add: procStep_cong)

lemma pollState_cong:
  assumes "sameProcessAnswers env env'"
  shows "pollState env' = pollState env"
proof -
  have "time_Now env' = time_Now env" using assms by (simp add: sameProcessAnswers_def)
  then show ?thesis by (intro ext) (simp add: pollState_def procLoop_cong [OF assms])
qed

lemma processSection_cong:
  assumes "sameProcessAnswers env env'"
  shows "processSection env' m s = processSection env m s"
proof -
  have "process_Pids env' = process_Pids env" "time_Now env' = time_Now env"
    using assms by (simp_all add: sameProcessAnswers_def)
  then show ?thesis unfolding processSection_def by (simp only: pollState_cong [OF assms])
qed

lemma diskLoop_cong:
  "disk_Usage env' = disk_Usage env \<Longrightarrow> diskLoop env' parts ds = diskLoop env parts ds"
  by (induction parts arbitrary: ds) (simp_all split: sum.splits)

lemma procStep_procs_mono:
  assumes "procs (fst st) q = Some h"
  shows "procs (fst (procStep env d pid st)) q = Some h"
proof (cases "q = pid")
  case False
  then show ?thesis using assms by (simp add: procStep_other(2))
next
  case True
  then have a: "acquire env (fst st) pid = Some (h, fst st)" using assms by (simp add: acquire_def)
  show ?thesis using assms True by (simp add: procStep_Some [OF a])
qed

lemma procStep_sampledIn:
  assumes "\<forall>info\<in>set (snd st). sampledIn env d S (fst st) info"
  shows "\<forall>info\<in>set (snd (procStep env d pid st)). sampledIn env d (insert pid S)
           (fst (procStep env d pid st)) info"
proof (cases "acquire env (fst st) pid")
  case None
  then show ?thesis using assms by (auto simp: procStep_None sampledIn_def)
next
  case (Some a)
  then obtain proc m1 where a: "acquire env (fst st) pid = Some (proc, m1)" by (cases a) auto
  have old: "sampledIn env d (insert pid S) (fst (procStep env d pid st)) info"
    if "info \<in> set (snd st)" for info
  proof -
    from assms that obtain h L where h: "PID info \<in> S" "procs (fst st) (PID info) = Some h"
        "info = sampleProc env d L (PID info) h"
      by (auto simp: sampledIn_def)
    have "procs (fst (procStep env d pid st)) (PID info) = Some h"
      using procStep_procs_mono [OF h(2)] .
    then show ?thesis using h(1,3) unfolding sampledIn_def by blast
  qed
  have new: "sampledIn env d (insert pid S) (fst (procStep env d pid st))
      (sampleProc env d (lastStats m1) pid proc)"
    using acquire_Some(1) [OF a]
    by (auto simp: sampledIn_def procStep_Some [OF a] sampleProc_fields(1))
  show ?thesis using old new by (auto simp: procStep_Some [OF a])
qed

lemma procLoop_sampledIn:
  "\<forall>info\<in>set (snd st). sampledIn env d S (fst st) info \<Longrightarrow>
   \<forall>info\<in>set (snd (procLoop env d pids st)). sampledIn env d (S \<union> set pids)
     (fst (procLoop env d pids st)) info"
proof (induction pids arbitrary: st S)
  case Nil
  then show ?case by simp
next
  case (Cons pid pids)
  have "\<forall>info\<in>set (snd (procStep env d pid st)). sampledIn env d (insert pid S)
      (fst (procStep env d pid st)) info"
    using procStep_sampledIn [OF Cons.prems] .
  from Cons.IH [OF this] show ?case by simp
qed

lemma pollState_sampledIn:
  assumes "info \<in> set (snd (pollState env m pids))"
  shows "sampledIn env (pollDuration (lastTime m) (time_Now env)) (set pids)
           (fst (pollState env m pids)) info"
  using procLoop_sampledIn [of "(m, [])" env _ "{}" pids] assms by (simp add: pollState_def)

subsection \<open>The example polls\<close>

lemma bitlen_numeral_simps:
  "bitlen (numeral (Num.Bit0 n)) = bitlen (numeral n) + 1"
  "bitlen (numeral (Num.Bit1 n)) = bitlen (numeral n) + 1"
  "bitlen 1 = 1"
  by (subst compute_bitlen, simp)+

lemma Seconds_1s: "Seconds 1000000000 = Fin 1"
  by (simp add: Seconds_def go_quot_def go_rem_def Second_def f64_of_int64_def round_f64_def
      flog2_def pow2_def round_even_def Let_def bitlen_numeral_simps)

lemma pollDuration_1s: "pollDuration 0 1000000000 = Fin 1"
  by (simp add: pollDuration_def Sub_def maxDuration_def minDuration_def Seconds_1s f64_le_def f64_eq_def)

lemma pollDuration_2s: "pollDuration 1000000000 2000000000 = Fin 1"
  by (simp add: pollDuration_def Sub_def maxDuration_def minDuration_def Seconds_1s f64_le_def f64_eq_def)

lemma round_2000: "round_f64 2000 = Fin 2000"
  by (simp add: round_f64_def flog2_def pow2_def round_even_def Let_def bitlen_numeral_simps)

lemma poll1_sample:
  "lastStats poll1 100 = Some \<lparr>PID = 100, Name = [], CPU = Fin 0, Mem = 0, DiskIO = 1000, DiskRate = 0, NetConns = 0\<rparr>"
  "procs poll1 100 = Some 100" "lastTime poll1 = 0"
  by (simp_all add: poll1_def GetStats_snd processSection_def pollState_def onePid_def failing_def
      NewMonitor_def procStep_def acquire_def sampleProc_def stringOr_def ptrOr_def sliceOr_def
      diskRateOf_def cleanup_def activePids_def Let_def)

lemma poll2_sample:
  "lastStats poll2 100 = Some \<lparr>PID = 100, Name = [], CPU = Fin 0, Mem = 0, DiskIO = 3000, DiskRate = 2000, NetConns = 0\<rparr>"
  by (simp add: poll2_def GetStats_snd processSection_def pollState_def onePid_def failing_def
      poll1_sample pollDuration_1s round_2000 f64_of_uint64_def uint64_of_f64_def
      procStep_def acquire_def sampleProc_def stringOr_def ptrOr_def sliceOr_def
      diskRateOf_def cleanup_def activePids_def Let_def)

subsection \<open>More on the poll\<close>

lemma usageRecord_Some_iff:
  "(usageRecord env p \<noteq> None) =
     (\<not> prefix ''/dev/loop'' (Device p) \<and> succeeded (disk_Usage env (Mountpoint p)))"
  by (simp add: usageRecord_def succeeded_def split: sum.splits)

lemma map_Path_kept:
  "map Path (List.map_filter (usageRecord env) parts) =
   map Mountpoint (filter (\<lambda>p. \<not> prefix ''/dev/loop'' (Device p) \<and>
                                succeeded (disk_Usage env (Mountpoint p))) parts)"
proof -
  have "(\<lambda>p. usageRecord env p \<noteq> None) =
      (\<lambda>p. \<not> prefix ''/dev/loop'' (Device p) \<and> succeeded (disk_Usage env (Mountpoint p)))"
    by (intro ext) (rule usageRecord_Some_iff)
  then show ?thesis using map_Path_map_filter [of env parts] by (simp only:)
qed

lemma acquire_None_iff: "(acquire env m pid = None) = (\<not> acquirable env m pid)"
  by (auto simp: acquire_def acquirable_def newOK_def succeeded_def split: option.splits sum.splits)

lemma procStep_doms:
  "dom (procs (fst (procStep env d pid st))) =
     dom (procs (fst st)) \<union> {q. q = pid \<and> newOK env q}"
  "dom (lastStats (fst (procStep env d pid st))) =
     dom (lastStats (fst st)) \<union> {q. q = pid \<and> acquirable env (fst st) q}"
proof -
  show "dom (procs (fst (procStep env d pid st))) =
     dom (procs (fst st)) \<union> {q. q = pid \<and> newOK env q}"
  proof (cases "acquire env (fst st) pid")
    case None
    then show ?thesis using acquire_None_iff [of env "fst st" pid]
      by (auto simp: procStep_None acquirable_def)
  next
    case (Some a)
    then obtain proc m1 where a: "acquire env (fst st) pid = Some (proc, m1)" by (cases a) auto
    have "acquirable env (fst st) pid" using a acquire_None_iff [of env "fst st" pid] by simp
    moreover have "procs (fst st) pid = None \<Longrightarrow> newOK env pid"
      using calculation by (simp add: acquirable_def)
    moreover have "newOK env pid \<Longrightarrow> pid \<in> dom (procs m1)"
      using acquire_Some(1) [OF a] by simp
    ultimately show ?thesis
      using acquire_Some(1) [OF a] by (auto simp: procStep_Some [OF a])
  qed
  show "dom (lastStats (fst (procStep env d pid st))) =
     dom (lastStats (fst st)) \<union> {q. q = pid \<and> acquirable env (fst st) q}"
  proof (cases "acquire env (fst st) pid")
    case None
    then show ?thesis using acquire_None_iff [of env "fst st" pid]
      by (auto simp: procStep_None)
  next
    case (Some a)
    then obtain proc m1 where a: "acquire env (fst st) pid = Some (proc, m1)" by (cases a) auto
    have "acquirable env (fst st) pid" using a acquire_None_iff [of env "fst st" pid] by simp
    then show ?thesis
      using acquire_Some(2) [OF a] by (auto simp: procStep_Some [OF a])
  qed
qed

lemma procLoop_doms:
  "dom (procs (fst (procLoop env d pids st))) =
     dom (procs (fst st)) \<union> {q \<in> set pids. newOK env q} \<and>
   dom (lastStats (fst (procLoop env d pids st))) =
     dom (lastStats (fst st)) \<union> {q \<in> set pids. acquirable env (fst st) q}"
proof (induction pids arbitrary: st)
  case Nil
  then show ?case by simp
next
  case (Cons pid pids)
  define st1 where "st1 = procStep env d pid st"
  have 1: "dom (procs (fst st1)) = dom (procs (fst st)) \<union> {q. q = pid \<and> newOK env q}"
    and 2: "dom (lastStats (fst st1)) =
      dom (lastStats (fst st)) \<union> {q. q = pid \<and> acquirable env (fst st) q}"
    unfolding st1_def by (rule procStep_doms)+
  have acq: "acquirable env (fst st1) q = acquirable env (fst st) q" for q
  proof -
    have "(q \<in> dom (procs (fst st1)) \<or> newOK env q) = (q \<in> dom (procs (fst st)) \<or> newOK env q)"
      unfolding 1 by blast
    then show ?thesis by (simp add: acquirable_def dom_def)
  qed
  have IH: "dom (procs (fst (procLoop env d pids st1))) =
     dom (procs (fst st1)) \<union> {q \<in> set pids. newOK env q} \<and>
   dom (lastStats (fst (procLoop env d pids st1))) =
     dom (lastStats (fst st1)) \<union> {q \<in> set pids. acquirable env (fst st1) q}"
    using Cons.IH [of st1] .
  show ?case
    unfolding procLoop.simps st1_def [symmetric] using IH unfolding 1 2 acq by auto
qed

lemma cleanup_doms:
  "dom (procs (cleanup pids m)) = dom (procs m) \<inter> set pids"
  "dom (lastStats (cleanup pids m)) = dom (lastStats m) - (dom (procs m) - set pids)"
  by (auto simp: cleanup_simps dom_def split: if_splits)

lemma GetStats_doms:
  assumes c: "cachesAgree m" and p: "process_Pids env = Inr pids"
  shows "dom (procs (snd (GetStats env m))) = {q \<in> set pids. acquirable env m q}"
    and "dom (lastStats (snd (GetStats env m))) = {q \<in> set pids. acquirable env m q}"
proof -
  define m1 where "m1 = fst (pollState env m pids)"
  have d: "dom (procs m1) = dom (procs m) \<union> {q \<in> set pids. newOK env q}"
      "dom (lastStats m1) = dom (lastStats m) \<union> {q \<in> set pids. acquirable env m q}"
    unfolding m1_def pollState_def
    using procLoop_doms [of env _ pids "(m, [])"] by simp_all
  have s: "snd (GetStats env m) = cleanup pids (m1\<lparr>lastTime := time_Now env\<rparr>)"
    by (simp add: GetStats_snd processSection_Inr [OF p] m1_def)
  have sub: "dom (lastStats m) \<subseteq> dom (procs m)" using c by (simp add: cachesAgree_def)
  have a: "acquirable env m q = (q \<in> dom (procs m) \<or> newOK env q)" for q
    by (auto simp: acquirable_def)
  show "dom (procs (snd (GetStats env m))) = {q \<in> set pids. acquirable env m q}"
    unfolding s cleanup_doms using d(1) a by auto
  show "dom (lastStats (snd (GetStats env m))) = {q \<in> set pids. acquirable env m q}"
    unfolding s cleanup_doms using d sub a by auto
qed

lemma reachable_poll1: "reachable poll1"
  unfolding poll1_def by (rule reachable.poll) (rule reachable.init)

lemma failing_Pids: "process_Pids failing = Inl (Err ''pids'')" "time_Now failing = 1000000000"
  by (simp_all add: failing_def)

lemma onePid_Pids: "process_Pids (onePid t b) = Inr [100]" "time_Now (onePid t b) = t"
  by (simp_all add: onePid_def failing_def)

lemma Seconds_2s: "Seconds 2000000000 = Fin 2"
  by (simp add: Seconds_def go_quot_def go_rem_def Second_def f64_of_int64_def round_f64_def
      flog2_def pow2_def round_even_def Let_def bitlen_numeral_simps)

lemma pollDuration_0_2s: "pollDuration 0 2000000000 = Fin 2"
  by (simp add: pollDuration_def Sub_def maxDuration_def minDuration_def Seconds_2s f64_le_def
      f64_eq_def)

lemma pollDuration_same: "pollDuration 0 0 = Fin 1"
  using pollDuration_cases [of 0 0] by simp

lemma sampledIn_D:
  assumes "sampledIn env d S m info"
  obtains proc L pid where "pid = PID info" "pid \<in> S" "procs m pid = Some proc"
    "info = sampleProc env d L pid proc"
  using assms unfolding sampledIn_def by blast

lemma pollState_rates:
  assumes "info \<in> set (snd (pollState env m pids))"
  shows "\<exists>L. DiskRate info =
      diskRateOf (uint64_out_of_range env) L (DiskIO info)
        (pollDuration (lastTime m) (time_Now env))"
proof -
  define d where "d = pollDuration (lastTime m) (time_Now env)"
  from pollState_sampledIn [OF assms] obtain proc L pid where
    eq: "info = sampleProc env d L pid proc"
    unfolding d_def by (rule sampledIn_D)
  have "DiskRate (sampleProc env d L pid proc) =
      diskRateOf (uint64_out_of_range env) (L pid) (DiskIO (sampleProc env d L pid proc)) d"
    by (rule sampleProc_fields(6))
  then have "DiskRate info = diskRateOf (uint64_out_of_range env) (L pid) (DiskIO info) d"
    by (simp only: eq [symmetric])
  then show ?thesis unfolding d_def by blast
qed

lemma poll2_procs: "procs poll2 100 = Some 100" "lastTime poll2 = 1000000000"
  by (simp_all add: poll2_def GetStats_snd processSection_def pollState_def onePid_def failing_def
      poll1_sample procStep_def acquire_def cleanup_def activePids_def Let_def split: prod.splits)

lemma poll3_sample:
  "lastStats poll3 100 = Some \<lparr>PID = 100, Name = [], CPU = Fin 0, Mem = 0, DiskIO = 2500, DiskRate = 0, NetConns = 0\<rparr>"
  by (simp add: poll3_def GetStats_snd processSection_def pollState_def onePid_def failing_def
      poll2_sample poll2_procs procStep_def acquire_def sampleProc_def stringOr_def ptrOr_def sliceOr_def
      diskRateOf_def cleanup_def activePids_def Let_def)

lemma section_tops:
  "TopCPU (cpuSection env s) = TopCPU s" "TopMem (cpuSection env s) = TopMem s"
  "TopDisk (cpuSection env s) = TopDisk s" "TopNet (cpuSection env s) = TopNet s"
  "TopCPU (memSection env s) = TopCPU s" "TopMem (memSection env s) = TopMem s"
  "TopDisk (memSection env s) = TopDisk s" "TopNet (memSection env s) = TopNet s"
  "TopCPU (diskSection env s) = TopCPU s" "TopMem (diskSection env s) = TopMem s"
  "TopDisk (diskSection env s) = TopDisk s" "TopNet (diskSection env s) = TopNet s"
  "TopCPU (hostSection env s) = TopCPU s" "TopMem (hostSection env s) = TopMem s"
  "TopDisk (hostSection env s) = TopDisk s" "TopNet (hostSection env s) = TopNet s"
  "TopCPU (netSection env s) = TopCPU s" "TopMem (netSection env s) = TopMem s"
  "TopDisk (netSection env s) = TopDisk s" "TopNet (netSection env s) = TopNet s"
  by (simp_all add: cpuSection_def memSection_def diskSection_def hostSection_def netSection_def
      split: sum.splits)

lemma systemSection_tops:
  "TopCPU (systemSection env) = []" "TopMem (systemSection env) = []"
  "TopDisk (systemSection env) = []" "TopNet (systemSection env) = []"
  unfolding systemSection_def by (simp_all only: section_tops) (simp_all add: zeroStats_def)

lemma snapshot_tops:
  "TopCPU (snapshot env m) =
     (case process_Pids env of Inl e \<Rightarrow> [] | Inr pids \<Rightarrow> getTop (snd (pollState env m pids)) lessCPU 5)"
  "TopMem (snapshot env m) =
     (case process_Pids env of Inl e \<Rightarrow> [] | Inr pids \<Rightarrow> getTop (snd (pollState env m pids)) lessMem 5)"
  "TopDisk (snapshot env m) =
     (case process_Pids env of Inl e \<Rightarrow> [] | Inr pids \<Rightarrow> getTop (snd (pollState env m pids)) lessDisk 5)"
  "TopNet (snapshot env m) =
     (case process_Pids env of Inl e \<Rightarrow> [] | Inr pids \<Rightarrow> getTop (snd (pollState env m pids)) lessNet 5)"
  by (simp_all add: snapshot_def GetStats_fst processSection_Inl processSection_Inr
      systemSection_tops split: sum.splits)

lemma snapshot_fields:
  "CPUUsage (snapshot env m) = CPUUsage (systemSection env)"
  "MemoryTotal (snapshot env m) = MemoryTotal (systemSection env)"
  "MemoryUsed (snapshot env m) = MemoryUsed (systemSection env)"
  "MemoryFree (snapshot env m) = MemoryFree (systemSection env)"
  "Disks (snapshot env m) = Disks (systemSection env)"
  "Uptime (snapshot env m) = Uptime (systemSection env)"
  "Hostname (snapshot env m) = Hostname (systemSection env)"
  "OS (snapshot env m) = OS (systemSection env)"
  "Platform (snapshot env m) = Platform (systemSection env)"
  "NetSent (snapshot env m) = NetSent (systemSection env)"
  "NetRecv (snapshot env m) = NetRecv (systemSection env)"
  by (simp_all add: snapshot_def GetStats_fst processSection_fields)

lemma set_getTop: "set (getTop ps lt n) \<subseteq> set ps"
  using set_mset_mono [OF getTop_subset [of ps lt n]] by simp

lemma top_entry_sampled:
  assumes "info \<in> set (TopCPU (snapshot env m)) \<union> set (TopMem (snapshot env m)) \<union>
      set (TopDisk (snapshot env m)) \<union> set (TopNet (snapshot env m))"
  obtains pids proc L where "process_Pids env = Inr pids"
    "info \<in> set (snd (pollState env m pids))"
    "procs (snd (GetStats env m)) (PID info) = Some proc"
    "info = sampleProc env (pollDuration (lastTime m) (time_Now env)) L (PID info) proc"
proof -
  obtain pids where p: "process_Pids env = Inr pids"
    using assms by (cases "process_Pids env") (auto simp: snapshot_tops)
  have "info \<in> set (getTop (snd (pollState env m pids)) lessCPU 5) \<union>
      set (getTop (snd (pollState env m pids)) lessMem 5) \<union>
      set (getTop (snd (pollState env m pids)) lessDisk 5) \<union>
      set (getTop (snd (pollState env m pids)) lessNet 5)"
    using assms unfolding snapshot_tops p by simp
  then have mem: "info \<in> set (snd (pollState env m pids))"
    using set_getTop [of "snd (pollState env m pids)"] by blast
  from pollState_sampledIn [OF mem] obtain proc L where
    s: "PID info \<in> set pids" "procs (fst (pollState env m pids)) (PID info) = Some proc"
      "info = sampleProc env (pollDuration (lastTime m) (time_Now env)) L (PID info) proc"
    unfolding sampledIn_def by blast
  have "snd (GetStats env m) =
      cleanup pids ((fst (pollState env m pids))\<lparr>lastTime := time_Now env\<rparr>)"
    by (simp add: GetStats_snd processSection_Inr [OF p])
  then have "procs (snd (GetStats env m)) (PID info) =
      procs ((fst (pollState env m pids))\<lparr>lastTime := time_Now env\<rparr>) (PID info)"
    using s(1) by (simp only: cleanup_simps(1) if_True)
  then have "procs (snd (GetStats env m)) (PID info) = Some proc"
    using s(2) by simp
  then show ?thesis using that [OF p mem _ s(3)] by blast
qed

lemma poll_samples_numbers:
  assumes "numbersOnly env" "info \<in> set (snd (pollState env m pids))"
  shows "CPU info \<noteq> NaN"
proof -
  from pollState_sampledIn [OF assms(2)] obtain proc L pid where
    eq: "info = sampleProc env (pollDuration (lastTime m) (time_Now env)) L pid proc"
    by (rule sampledIn_D)
  have "CPU (sampleProc env (pollDuration (lastTime m) (time_Now env)) L pid proc) \<noteq> NaN"
    using assms(1) unfolding sampleProc_fields(3) numbersOnly_def by (auto split: sum.splits)
  with eq show ?thesis by simp
qed

lemma top_entry_fields:
  assumes "info \<in> set (TopCPU (snapshot env m)) \<union> set (TopMem (snapshot env m)) \<union>
      set (TopDisk (snapshot env m)) \<union> set (TopNet (snapshot env m))"
  shows "\<exists>proc. procs (snd (GetStats env m)) (PID info) = Some proc \<and>
      Name info = (case proc_Name env proc of Inl e \<Rightarrow> [] | Inr n \<Rightarrow> n) \<and>
      CPU info = (case proc_CPUPercent env proc of Inl e \<Rightarrow> Fin 0 | Inr c \<Rightarrow> c) \<and>
      Mem info = (case proc_MemoryInfo env proc of Inl e \<Rightarrow> 0 | Inr mi \<Rightarrow> RSS mi) \<and>
      DiskIO info =
        (case proc_IOCounters env proc of Inl e \<Rightarrow> 0 | Inr c \<Rightarrow> ReadBytes c + WriteBytes c) \<and>
      NetConns info =
        (case proc_Connections env proc of Inl e \<Rightarrow> 0 | Inr cs \<Rightarrow> int (length cs)) \<and>
      (\<forall>e. proc_IOCounters env proc = Inl e \<longrightarrow> DiskRate info = 0)"
proof -
  define d where "d = pollDuration (lastTime m) (time_Now env)"
  from assms obtain pids proc L where
    pr: "procs (snd (GetStats env m)) (PID info) = Some proc"
    and eq: "info = sampleProc env d L (PID info) proc"
    unfolding d_def by (rule top_entry_sampled)
  define pid where "pid = PID info"
  define sp where "sp = sampleProc env d L pid proc"
  have i: "info = sp" using eq by (simp add: sp_def pid_def)
  have 1: "Name sp = (case proc_Name env proc of Inl e \<Rightarrow> [] | Inr n \<Rightarrow> n)"
    unfolding sp_def sampleProc_fields(2) by (simp add: stringOr_def)
  have 2: "CPU sp = (case proc_CPUPercent env proc of Inl e \<Rightarrow> Fin 0 | Inr c \<Rightarrow> c)"
    unfolding sp_def by (rule sampleProc_fields(3))
  have 3: "Mem sp = (case proc_MemoryInfo env proc of Inl e \<Rightarrow> 0 | Inr mi \<Rightarrow> RSS mi)"
    unfolding sp_def by (rule sampleProc_fields(4))
  have 4: "DiskIO sp =
      (case proc_IOCounters env proc of Inl e \<Rightarrow> 0 | Inr c \<Rightarrow> ReadBytes c + WriteBytes c)"
    unfolding sp_def by (rule sampleProc_fields(5))
  have 5: "NetConns sp =
      (case proc_Connections env proc of Inl e \<Rightarrow> 0 | Inr cs \<Rightarrow> int (length cs))"
    unfolding sp_def by (rule sampleProc_fields(7))
  have 6: "DiskRate sp = 0" if "proc_IOCounters env proc = Inl e" for e
  proof -
    obtain x where x: "d = Fin x" "1 / 2 ^ 42 \<le> x"
      using pollDuration_cases [of "time_Now env" "lastTime m"] unfolding d_def by blast
    have x0: "0 < x" using x(2) by (rule less_le_trans [rotated]) simp
    have io: "DiskIO sp = 0" using 4 that by simp
    have "DiskRate sp = diskRateOf (uint64_out_of_range env) (L pid) (DiskIO sp) d"
      unfolding sp_def by (rule sampleProc_fields(6))
    then show ?thesis unfolding io x(1) by (simp add: diskRateOf_zero [OF x0])
  qed
  show ?thesis
    unfolding i using pr [unfolded i] 1 2 3 4 5 6 by blast
qed

lemma ranked_Nil: "ranked below same []"
  by (simp add: ranked_def)

lemma snapshot_ranked:
  "ranked (\<lambda>p q. Mem p < Mem q) (\<lambda>p q. Mem p = Mem q) (TopMem (snapshot env m))"
  "ranked (\<lambda>p q. DiskRate p < DiskRate q) (\<lambda>p q. DiskRate p = DiskRate q)
     (TopDisk (snapshot env m))"
  "ranked (\<lambda>p q. NetConns p < NetConns q) (\<lambda>p q. NetConns p = NetConns q)
     (TopNet (snapshot env m))"
  unfolding snapshot_tops
  by (simp_all add: ranked_Nil ranked_Mem ranked_Disk ranked_Net split: sum.splits)

lemma snapshot_ranked_CPU:
  assumes "numbersOnly env"
  shows "ranked (\<lambda>p q. f64_lt (CPU p) (CPU q)) (\<lambda>p q. f64_eq (CPU p) (CPU q))
     (TopCPU (snapshot env m))"
proof (cases "process_Pids env")
  case (Inl e)
  then show ?thesis by (simp add: snapshot_tops ranked_Nil)
next
  case (Inr pids)
  have "\<forall>p\<in>set (snd (pollState env m pids)). CPU p \<noteq> NaN"
    using poll_samples_numbers [OF assms] by blast
  then show ?thesis using ranked_CPU Inr by (simp add: snapshot_tops)
qed

lemma first_poll_samples:
  "snd (pollState (onePid 0 1000) (NewMonitor 0) [100]) =
     [\<lparr>PID = 100, Name = [], CPU = Fin 0, Mem = 0, DiskIO = 1000, DiskRate = 0, NetConns = 0\<rparr>]"
  by (simp add: pollState_def onePid_def failing_def NewMonitor_def procStep_def acquire_def
      sampleProc_def stringOr_def ptrOr_def sliceOr_def diskRateOf_def Let_def)

section \<open>The claims about the ranking\<close>

text \<open>
  C3. For every list of samples, each of the four Top-N lists (CPU, memory, disk rate,
  connections) has as many entries as the smaller of the number of samples and 5: never
  more than 5, and the empty list, not an error, for no samples. Its entries are
  samples of the input, none taken twice, and when there are at most 5 samples the list
  holds all of them.
\<close>

theorem topN_length:
  "length (getTop ps lessCPU 5) = min (length ps) 5 \<and>
   length (getTop ps lessMem 5) = min (length ps) 5 \<and>
   length (getTop ps lessDisk 5) = min (length ps) 5 \<and>
   length (getTop ps lessNet 5) = min (length ps) 5 \<and>
   getTop [] less_fn 5 = [] \<and>
   mset (getTop ps lessCPU 5) \<subseteq># mset ps \<and>
   mset (getTop ps lessMem 5) \<subseteq># mset ps \<and>
   mset (getTop ps lessDisk 5) \<subseteq># mset ps \<and>
   mset (getTop ps lessNet 5) \<subseteq># mset ps \<and>
   (length ps \<le> 5 \<longrightarrow>
      mset (getTop ps lessCPU 5) = mset ps \<and> mset (getTop ps lessMem 5) = mset ps \<and>
      mset (getTop ps lessDisk 5) = mset ps \<and> mset (getTop ps lessNet 5) = mset ps)"
proof -
  have "getTop [] less_fn 5 = []" by (simp add: getTop_def)
  then show ?thesis by (simp add: getTop_length getTop_subset getTop_all)
qed

theorem topN_length_witness:
  "length (getTop twelve lessCPU 5) = 5 \<and> length (getTop twelve lessMem 5) = 5 \<and>
   length (getTop twelve lessDisk 5) = 5 \<and> length (getTop twelve lessNet 5) = 5 \<and>
   length (getTop [procA, procB, procC] lessNet 5) = 3 \<and>
   mset (getTop [procA, procB, procC] lessCPU 5) = mset [procA, procB, procC] \<and>
   mset (getTop [procA, procB, procC] lessNet 5) = mset [procA, procB, procC]"
  using topN_length [of twelve] topN_length [of "[procA, procB, procC]"]
  by (simp add: twelve_def)

text \<open>
  C4. Each of the four Top-N lists is ranked: no entry has a smaller metric than a later
  one, and of two entries with equal metric the one with the lower PID comes first. For
  the memory, disk-rate and connection lists this holds of every list of samples
  whatever; for the CPU list it holds of every list of samples whose CPU values are
  numbers. A sample's CPU value is 0 or what \<^verbatim>\<open>proc.CPUPercent()\<close> returned, a
  percentage and never NaN: so the four lists of the snapshot of every poll are ranked.
\<close>

theorem topN_ranked:
  "ranked (\<lambda>p q. Mem p < Mem q) (\<lambda>p q. Mem p = Mem q) (getTop ps lessMem 5) \<and>
   ranked (\<lambda>p q. DiskRate p < DiskRate q) (\<lambda>p q. DiskRate p = DiskRate q)
     (getTop ps lessDisk 5) \<and>
   ranked (\<lambda>p q. NetConns p < NetConns q) (\<lambda>p q. NetConns p = NetConns q)
     (getTop ps lessNet 5) \<and>
   ((\<forall>p\<in>set ps. CPU p \<noteq> NaN) \<longrightarrow>
     ranked (\<lambda>p q. f64_lt (CPU p) (CPU q)) (\<lambda>p q. f64_eq (CPU p) (CPU q))
       (getTop ps lessCPU 5)) \<and>
   ranked (\<lambda>p q. Mem p < Mem q) (\<lambda>p q. Mem p = Mem q) (TopMem (snapshot env m)) \<and>
   ranked (\<lambda>p q. DiskRate p < DiskRate q) (\<lambda>p q. DiskRate p = DiskRate q)
     (TopDisk (snapshot env m)) \<and>
   ranked (\<lambda>p q. NetConns p < NetConns q) (\<lambda>p q. NetConns p = NetConns q)
     (TopNet (snapshot env m)) \<and>
   (numbersOnly env \<longrightarrow>
     ranked (\<lambda>p q. f64_lt (CPU p) (CPU q)) (\<lambda>p q. f64_eq (CPU p) (CPU q))
       (TopCPU (snapshot env m)))"
  using ranked_Mem [of ps 5] ranked_Disk [of ps 5] ranked_Net [of ps 5] ranked_CPU [of ps 5]
    snapshot_ranked [of env m] snapshot_ranked_CPU [of env m]
  by blast

theorem topN_ranked_witness:
  "ranked (\<lambda>p q. Mem p < Mem q) (\<lambda>p q. Mem p = Mem q) (getTop [procA, procC] lessMem 5) \<and>
   ranked (\<lambda>p q. f64_lt (CPU p) (CPU q)) (\<lambda>p q. f64_eq (CPU p) (CPU q)) [procC, procA] \<and>
   numbersOnly (onePid 0 1000) \<and>
   ranked (\<lambda>p q. f64_lt (CPU p) (CPU q)) (\<lambda>p q. f64_eq (CPU p) (CPU q))
     (TopCPU (snapshot (onePid 0 1000) (NewMonitor 0)))"
proof -
  have n: "numbersOnly (onePid 0 1000)"
    by (simp add: numbersOnly_def onePid_def failing_def)
  show ?thesis
    using topN_ranked [of "[procA, procC]" "onePid 0 1000" "NewMonitor 0"] getTop_CPU_ac n
    by (simp add: procA_def procC_def)
qed

text \<open>
  C5. For samples with pairwise distinct PIDs, each ranking depends on the set of
  samples only: any reordering of the input gives the same list. For the memory,
  disk-rate and connection rankings this holds of every such list; for the CPU ranking
  it holds of every such list whose CPU values are numbers, as those of a poll are.
\<close>

theorem topN_permutation:
  assumes "mset xs = mset ys" and "distinct (map PID xs)"
  shows "getTop xs lessMem 5 = getTop ys lessMem 5 \<and>
         getTop xs lessDisk 5 = getTop ys lessDisk 5 \<and>
         getTop xs lessNet 5 = getTop ys lessNet 5 \<and>
         ((\<forall>p\<in>set xs. CPU p \<noteq> NaN) \<longrightarrow> getTop xs lessCPU 5 = getTop ys lessCPU 5) \<and>
         (numbersOnly env \<longrightarrow> (\<forall>p\<in>set (snd (pollState env m pids)). CPU p \<noteq> NaN))"
  using perm_Mem [OF assms] perm_Disk [OF assms] perm_Net [OF assms] perm_CPU [OF assms]
    poll_samples_numbers [of env _ m pids]
  by blast

theorem topN_permutation_witness:
  "mset [procA, procC] = mset [procC, procA] \<and> distinct (map PID [procA, procC]) \<and>
   getTop [procA, procC] lessMem 5 = getTop [procC, procA] lessMem 5 \<and>
   getTop [procC, procA] lessCPU 5 = [procC, procA]"
proof -
  have h1: "mset [procA, procC] = mset [procC, procA]" by simp
  have h2: "distinct (map PID [procA, procC])" by (simp add: procA_def procC_def)
  have n: "\<forall>p\<in>set [procA, procC]. CPU p \<noteq> NaN" by (simp add: procA_def procC_def)
  note t = topN_permutation [OF h1 h2, of "onePid 0 1000" "NewMonitor 0" "[100]"]
  have 1: "getTop [procA, procC] lessMem 5 = getTop [procC, procA] lessMem 5" using t by blast
  have "getTop [procA, procC] lessCPU 5 = getTop [procC, procA] lessCPU 5" using t n by blast
  then have 2: "getTop [procC, procA] lessCPU 5 = [procC, procA]" using getTop_CPU_ac by simp
  show ?thesis by (intro conjI h1 h2 1 2)
qed

text \<open>
  C10. \<^verbatim>\<open>getTop\<close> does not change the slice it is given: it sorts an array of its own,
  so after a call the caller's slice holds the same elements in the same order, every
  array that was in use is as it was, and the slice returned holds the ranking. So each
  of the four calls of \<^verbatim>\<open>GetStats\<close> ranks the same samples, whatever the calls before
  it did.
\<close>

theorem getTop_leaves_input:
  assumes "validSlice h ps"
  shows "(case getTopH h ps less_fn limit of
            (r, h') \<Rightarrow> elems h' ps = elems h ps \<and> (\<forall>a<next_free h. arrays h' a = arrays h a) \<and>
              elems h' r = getTop (elems h ps) less_fn limit) \<and>
         (case fourTops h ps of
            ((r1, r2, r3, r4), h4) \<Rightarrow> elems h4 ps = elems h ps \<and>
              elems h4 r1 = getTop (elems h ps) lessCPU 5 \<and>
              elems h4 r2 = getTop (elems h ps) lessMem 5 \<and>
              elems h4 r3 = getTop (elems h ps) lessDisk 5 \<and>
              elems h4 r4 = getTop (elems h ps) lessNet 5)"
proof
  obtain r h' where g: "getTopH h ps less_fn limit = (r, h')" by (cases "getTopH h ps less_fn limit")
  note s = getTopH_spec [OF assms g]
  have "elems h' ps = elems h ps" using elems_frame [OF assms] s by blast
  then show "case getTopH h ps less_fn limit of
            (r, h') \<Rightarrow> elems h' ps = elems h ps \<and> (\<forall>a<next_free h. arrays h' a = arrays h a) \<and>
              elems h' r = getTop (elems h ps) less_fn limit"
    using g s by simp
next
  obtain r1 r2 r3 r4 h4 where f: "fourTops h ps = ((r1, r2, r3, r4), h4)"
    by (cases "fourTops h ps") auto
  show "case fourTops h ps of
            ((r1, r2, r3, r4), h4) \<Rightarrow> elems h4 ps = elems h ps \<and>
              elems h4 r1 = getTop (elems h ps) lessCPU 5 \<and>
              elems h4 r2 = getTop (elems h ps) lessMem 5 \<and>
              elems h4 r3 = getTop (elems h ps) lessDisk 5 \<and>
              elems h4 r4 = getTop (elems h ps) lessNet 5"
    using fourTops_spec [OF assms f] f by simp
qed

theorem getTop_leaves_input_witness:
  "validSlice heap0 (Slice 0 0 2) \<and>
   elems (snd (getTopH heap0 (Slice 0 0 2) lessCPU 1)) (Slice 0 0 2) = [procA, procC] \<and>
   elems (snd (getTopH heap0 (Slice 0 0 2) lessCPU 1))
     (fst (getTopH heap0 (Slice 0 0 2) lessCPU 1)) = [procC]"
  using getTop_leaves_input [of heap0 "Slice 0 0 2" lessCPU 1]
  by (simp add: heap0_def getTop_take SliceStable_def lessCPU_def f64_ne_def f64_eq_def
      f64_gt_def procA_def procC_def split: prod.splits)

section \<open>The claims about the poll\<close>

text \<open>
  C8. The disk list of the snapshot holds exactly one usage record for each enumerated
  partition that is not a loop device and whose usage query succeeded, in the order of
  the enumeration: a partition whose usage query fails is left out, with no placeholder,
  and the records of the other partitions are there. When the partitions cannot be
  enumerated the list is empty.
\<close>

theorem disks_of_snapshot:
  "Disks (fst (fst (GetStats env m))) =
     (case disk_Partitions env of
        Inl e \<Rightarrow> []
      | Inr parts \<Rightarrow> List.map_filter (usageRecord env) parts) \<and>
   map Path (Disks (fst (fst (GetStats env m)))) =
     (case disk_Partitions env of
        Inl e \<Rightarrow> []
      | Inr parts \<Rightarrow>
          map Mountpoint
            (filter (\<lambda>p. \<not> prefix ''/dev/loop'' (Device p) \<and>
                          succeeded (disk_Usage env (Mountpoint p))) parts))"
proof -
  have 1: "Disks (fst (fst (GetStats env m))) =
     (case disk_Partitions env of
        Inl e \<Rightarrow> []
      | Inr parts \<Rightarrow> List.map_filter (usageRecord env) parts)"
    by (simp add: GetStats_fst processSection_fields(5) systemSection_Disks)
  show ?thesis
    unfolding 1
    by (simp add: map_Path_kept split: sum.splits)
qed

theorem disks_of_snapshot_witness:
  "map Path (Disks (fst (fst (GetStats threeMounts (NewMonitor 0))))) = [''/'', ''/data''] \<and>
   Disks (fst (fst (GetStats threeMounts (NewMonitor 0)))) =
     [\<lparr>Path = ''/'', Total = 100, Used = 40, Free = 60, UsedPercent = Fin 40\<rparr>,
      \<lparr>Path = ''/data'', Total = 100, Used = 40, Free = 60, UsedPercent = Fin 40\<rparr>]"
  using disks_of_snapshot [of threeMounts "NewMonitor 0"]
  by (simp add: threeMounts_def failing_def List.map_filter_simps usageRecord_def succeeded_def)

text \<open>
  C2, as the code has it. At the end of every poll whose process enumeration succeeded,
  the handle cache and the sample cache hold exactly the enumerated PIDs for which a
  handle could be had: every cached PID was enumerated in that poll, and a PID that was
  not is in neither cache. A poll whose enumeration fails leaves the engine as it was.
\<close>

theorem caches_hold_enumerated_pids:
  assumes "reachable m"
  shows "(\<forall>pids. process_Pids env = Inr pids \<longrightarrow>
            dom (procs (snd (GetStats env m))) = {pid \<in> set pids. acquirable env m pid} \<and>
            dom (lastStats (snd (GetStats env m))) = dom (procs (snd (GetStats env m))) \<and>
            dom (procs (snd (GetStats env m))) \<subseteq> set pids \<and>
            dom (lastStats (snd (GetStats env m))) \<subseteq> set pids \<and>
            (\<forall>pid. pid \<notin> set pids \<longrightarrow>
               procs (snd (GetStats env m)) pid = None \<and>
               lastStats (snd (GetStats env m)) pid = None)) \<and>
         (\<forall>e. process_Pids env = Inl e \<longrightarrow> snd (GetStats env m) = m)"
proof -
  have c: "cachesAgree m" using assms by (rule reachable_cachesAgree)
  have "dom (procs (snd (GetStats env m))) = {pid \<in> set pids. acquirable env m pid} \<and>
        dom (lastStats (snd (GetStats env m))) = dom (procs (snd (GetStats env m))) \<and>
        dom (procs (snd (GetStats env m))) \<subseteq> set pids \<and>
        dom (lastStats (snd (GetStats env m))) \<subseteq> set pids \<and>
        (\<forall>pid. pid \<notin> set pids \<longrightarrow>
           procs (snd (GetStats env m)) pid = None \<and>
           lastStats (snd (GetStats env m)) pid = None)"
    if p: "process_Pids env = Inr pids" for pids
  proof -
    note d = GetStats_doms [OF c p]
    have 1: "dom (procs (snd (GetStats env m))) \<subseteq> set pids" unfolding d(1) by blast
    have 2: "dom (lastStats (snd (GetStats env m))) \<subseteq> set pids" unfolding d(2) by blast
    have 3: "procs (snd (GetStats env m)) pid = None \<and> lastStats (snd (GetStats env m)) pid = None"
      if "pid \<notin> set pids" for pid
      using 1 2 that by (meson domIff subsetD)
    show ?thesis using d 1 2 3 by simp
  qed
  moreover have "snd (GetStats env m) = m" if "process_Pids env = Inl e" for e
    using that by (rule GetStats_Inl)
  ultimately show ?thesis by blast
qed

theorem caches_hold_enumerated_pids_witness:
  "reachable (NewMonitor 0 :: nat Monitor) \<and> process_Pids (onePid 0 1000) = Inr [100] \<and>
   dom (procs poll1) = {100} \<and> dom (lastStats poll1) = {100} \<and>
   procs poll1 7 = None \<and> lastStats poll1 7 = None"
proof -
  have r: "reachable (NewMonitor 0 :: nat Monitor)" by (rule reachable.init)
  have a: "{pid \<in> set [100]. acquirable (onePid 0 1000) (NewMonitor 0) pid} = {100}"
    by (auto simp: acquirable_def newOK_def succeeded_def onePid_def failing_def)
  show ?thesis
    using caches_hold_enumerated_pids [OF r, of "onePid 0 1000"] r a
    by (simp add: poll1_def [symmetric] onePid_Pids)
qed

text \<open>The claim as it stands fails when \<^verbatim>\<open>process.Pids()\<close> returns an error: the poll
  enumerates no PID, and PID 100, cached by the poll before, is still in both caches.\<close>

theorem caches_kept_when_enumeration_fails:
  "reachable poll1 \<and> process_Pids failing = Inl (Err ''pids'') \<and> enumerated failing = {} \<and>
   procs (snd (GetStats failing poll1)) 100 = Some 100 \<and>
   lastStats (snd (GetStats failing poll1)) 100 \<noteq> None \<and>
   \<not> dom (procs (snd (GetStats failing poll1))) \<subseteq> enumerated failing \<and>
   \<not> dom (lastStats (snd (GetStats failing poll1))) \<subseteq> enumerated failing"
  using reachable_poll1 poll1_sample
  by (auto simp: GetStats_Inl [OF failing_Pids(1)] enumerated_def failing_Pids)

text \<open>
  C9, as the code has it. At the end of every poll whose process enumeration succeeded,
  \<^verbatim>\<open>lastTime\<close> is the timestamp taken in that poll, and the next poll measures its
  elapsed time from it. A poll whose enumeration fails takes no timestamp and leaves
  \<^verbatim>\<open>lastTime\<close> as it was.
\<close>

theorem lastTime_after_poll:
  "(\<forall>pids. process_Pids env = Inr pids \<longrightarrow>
      lastTime (snd (GetStats env m)) = time_Now env \<and>
      (\<forall>env' pids'. pollState env' (snd (GetStats env m)) pids' =
         procLoop env' (pollDuration (time_Now env) (time_Now env')) pids'
           (snd (GetStats env m), []))) \<and>
   (\<forall>e. process_Pids env = Inl e \<longrightarrow> lastTime (snd (GetStats env m)) = lastTime m)"
  by (simp add: GetStats_lastTime_Inr GetStats_Inl pollState_def)

theorem lastTime_after_poll_witness:
  "process_Pids (onePid 1000000000 3000) = Inr [100] \<and> lastTime poll2 = 1000000000 \<and>
   process_Pids failing = Inl (Err ''pids'') \<and> lastTime (snd (GetStats failing poll2)) = lastTime poll2"
  using lastTime_after_poll [of "onePid 1000000000 3000" poll1] lastTime_after_poll [of failing poll2]
  by (simp add: poll2_def [symmetric] onePid_Pids failing_Pids)

text \<open>The claim as it stands fails when \<^verbatim>\<open>process.Pids()\<close> returns an error: a poll at
  1 s leaves \<^verbatim>\<open>lastTime\<close> at 0, and the poll after it, at 2 s, divides by 2 seconds.\<close>

theorem lastTime_kept_when_enumeration_fails:
  "process_Pids failing = Inl (Err ''pids'') \<and> time_Now failing = 1000000000 \<and>
   lastTime (snd (GetStats failing (NewMonitor 0))) = 0 \<and>
   lastTime (snd (GetStats failing (NewMonitor 0))) \<noteq> time_Now failing \<and>
   pollDuration (lastTime (snd (GetStats failing (NewMonitor 0))))
     (time_Now (onePid 2000000000 2500)) = Fin 2 \<and>
   pollState (onePid 2000000000 2500) (snd (GetStats failing (NewMonitor 0))) [100] =
     procLoop (onePid 2000000000 2500) (pollDuration 0 2000000000) [100]
       (snd (GetStats failing (NewMonitor 0)), [])"
  by (simp add: GetStats_Inl [OF failing_Pids(1)] failing_Pids NewMonitor_def pollState_def
      onePid_Pids pollDuration_0_2s)

text \<open>
  C6. The elapsed time a poll divides by is a finite number greater than zero: it is
  1 when the time measured since the last poll is zero or negative, and the measured
  time otherwise, so a division by it is the rounded quotient by a positive number.
  Every disk rate of the poll is computed with this duration.
\<close>

theorem duration_positive:
  "(\<exists>x. pollDuration lastT now = Fin x \<and> 0 < x \<and>
        (\<forall>a. f64_div (Fin a) (pollDuration lastT now) = round_f64 (a / x))) \<and>
   f64_gt (pollDuration lastT now) (Fin 0) \<and>
   (f64_le (Seconds (Sub now lastT)) (Fin 0) \<longrightarrow> pollDuration lastT now = Fin 1) \<and>
   (\<not> f64_le (Seconds (Sub now lastT)) (Fin 0) \<longrightarrow>
      pollDuration lastT now = Seconds (Sub now lastT)) \<and>
   (now \<le> lastT \<longrightarrow> pollDuration lastT now = Fin 1) \<and>
   (lastT < now \<longrightarrow> pollDuration lastT now = Seconds (Sub now lastT)) \<and>
   (\<forall>info\<in>set (snd (pollState env m pids)).
      \<exists>L. DiskRate info =
        diskRateOf (uint64_out_of_range env) L (DiskIO info)
          (pollDuration (lastTime m) (time_Now env)))"
proof -
  obtain x where x: "pollDuration lastT now = Fin x" "1 / 2 ^ 42 \<le> x"
    using pollDuration_cases [of now lastT] by blast
  have x0: "0 < x" using x(2) by (rule less_le_trans [rotated]) simp
  have 1: "\<exists>x. pollDuration lastT now = Fin x \<and> 0 < x \<and>
        (\<forall>a. f64_div (Fin a) (pollDuration lastT now) = round_f64 (a / x))"
    using x(1) x0 by (intro exI [of _ x]) simp
  have 2: "f64_gt (pollDuration lastT now) (Fin 0)" using x(1) x0 by (simp add: f64_gt_def)
  have 3: "f64_le (Seconds (Sub now lastT)) (Fin 0) \<longrightarrow> pollDuration lastT now = Fin 1"
    by (simp add: pollDuration_def Let_def)
  have 4: "\<not> f64_le (Seconds (Sub now lastT)) (Fin 0) \<longrightarrow>
      pollDuration lastT now = Seconds (Sub now lastT)"
    by (simp add: pollDuration_def Let_def)
  have 5: "now \<le> lastT \<longrightarrow> pollDuration lastT now = Fin 1"
    and 6: "lastT < now \<longrightarrow> pollDuration lastT now = Seconds (Sub now lastT)"
    using pollDuration_cases [of now lastT] by blast+
  have 7: "\<forall>info\<in>set (snd (pollState env m pids)).
      \<exists>L. DiskRate info =
        diskRateOf (uint64_out_of_range env) L (DiskIO info)
          (pollDuration (lastTime m) (time_Now env))"
    using pollState_rates by blast
  show ?thesis by (intro conjI 1 2 3 4 5 6 7)
qed

theorem duration_positive_witness:
  "pollDuration 0 0 = Fin 1 \<and> pollDuration 1000000000 0 = Fin 1 \<and>
   pollDuration 0 2000000000 = Fin 2 \<and> f64_gt (pollDuration 0 2000000000) (Fin 0) \<and>
   f64_div (Fin 2000) (pollDuration 0 0) = Fin 2000"
proof -
  have 1: "pollDuration 0 0 = Fin 1"
    using duration_positive [of 0 0 failing "NewMonitor 0" "[]"] by simp
  have 2: "pollDuration 1000000000 0 = Fin 1"
    using duration_positive [of 1000000000 0 failing "NewMonitor 0" "[]"] by simp
  have 3: "f64_gt (pollDuration 0 2000000000) (Fin 0)"
    using duration_positive [of 0 2000000000 failing "NewMonitor 0" "[]"] by blast
  have 4: "pollDuration 0 2000000000 = Fin 2" by (rule pollDuration_0_2s)
  have 5: "f64_div (Fin 2000) (pollDuration 0 0) = Fin 2000"
    unfolding 1 by (simp add: round_2000)
  show ?thesis by (intro conjI 1 2 3 4 5)
qed

text \<open>
  C1. For every PID a poll processes, with the sample cache as it is when the PID's turn
  comes (the cache the poll started with, when the PID was not enumerated before in the
  same poll): when the cache holds no sample for the PID the recorded disk rate is 0;
  when it holds one and the cumulative counter read now is less than the cached one the
  rate is 0; otherwise the rate is \<^verbatim>\<open>uint64(float64(diskIO - last.DiskIO) / duration)\<close>,
  where the quotient is a finite float, not negative, and the rate is its integer part
  whenever that is below \<open>2 ^ 64\<close>. The sample goes to the ranking and into the cache.
  In every case the rate is not negative.
\<close>

theorem diskRate_of_processed_pid:
  assumes pids: "process_Pids env = Inr (pre @ pid # post)"
    and st: "pollState env m pre = (m1, infos)"
    and acq: "acquire env m1 pid = Some (proc, m2)"
  shows "\<exists>info.
      pollState env m (pre @ [pid]) = (m2\<lparr>lastStats := (lastStats m2)(pid \<mapsto> info)\<rparr>, infos @ [info]) \<and>
      info \<in> set (snd (pollState env m (pre @ pid # post))) \<and>
      PID info = pid \<and>
      (lastStats m1 pid = None \<longrightarrow> DiskRate info = 0) \<and>
      (\<forall>last'. lastStats m1 pid = Some last' \<longrightarrow> DiskIO info < DiskIO last' \<longrightarrow> DiskRate info = 0) \<and>
      (\<forall>last'. lastStats m1 pid = Some last' \<longrightarrow> DiskIO last' \<le> DiskIO info \<longrightarrow>
         DiskRate info =
           uint64_of_f64 (uint64_out_of_range env)
             (f64_div (f64_of_uint64 (DiskIO info - DiskIO last'))
               (pollDuration (lastTime m) (time_Now env))) \<and>
         (\<exists>a x q. f64_of_uint64 (DiskIO info - DiskIO last') = Fin a \<and>
            pollDuration (lastTime m) (time_Now env) = Fin x \<and> 0 < x \<and>
            round_f64 (a / x) = Fin q \<and> 0 \<le> q \<and>
            DiskRate info =
              (if q < 2 ^ 64 then word_of_int \<lfloor>q\<rfloor> else uint64_out_of_range env (Fin q)))) \<and>
      (pid \<notin> set pre \<longrightarrow> lastStats m1 pid = lastStats m pid) \<and>
      (pid \<notin> set post \<longrightarrow> lastStats (snd (GetStats env m)) pid = Some info) \<and>
      0 \<le> uint (DiskRate info)"
proof -
  define d where "d = pollDuration (lastTime m) (time_Now env)"
  define info where "info = sampleProc env d (lastStats m2) pid proc"
  have L: "lastStats m2 = lastStats m1" using acquire_Some(2) [OF acq] .
  have a': "acquire env (fst (pollState env m pre)) pid = Some (proc, m2)" using st acq by simp
  have step: "pollState env m (pre @ [pid]) =
      (m2\<lparr>lastStats := (lastStats m2)(pid \<mapsto> info)\<rparr>, infos @ [info])"
    unfolding pollState_snoc procStep_Some [OF a'] using st by (simp add: info_def d_def)
  have mem: "info \<in> set (snd (pollState env m (pre @ pid # post)))"
    by (rule pollState_mem [of env m pre pid infos]) (simp add: step)
  have rate: "DiskRate info = diskRateOf (uint64_out_of_range env) (lastStats m1 pid) (DiskIO info) d"
    unfolding info_def using sampleProc_fields(6) [of env d "lastStats m2" pid proc] L by simp
  obtain x where x: "d = Fin x" "1 / 2 ^ 42 \<le> x"
    using pollDuration_cases [of "time_Now env" "lastTime m"] unfolding d_def by blast
  have x0: "0 < x" using x(2) by (rule less_le_trans [rotated]) simp
  have quot: "DiskRate info = uint64_of_f64 (uint64_out_of_range env)
          (f64_div (f64_of_uint64 (DiskIO info - DiskIO l)) d) \<and>
        (\<exists>a x q. f64_of_uint64 (DiskIO info - DiskIO l) = Fin a \<and> d = Fin x \<and> 0 < x \<and>
           round_f64 (a / x) = Fin q \<and> 0 \<le> q \<and>
           DiskRate info =
             (if q < 2 ^ 64 then word_of_int \<lfloor>q\<rfloor> else uint64_out_of_range env (Fin q)))"
    if "lastStats m1 pid = Some l" "DiskIO l \<le> DiskIO info" for l
  proof -
    have r: "DiskRate info = uint64_of_f64 (uint64_out_of_range env)
          (f64_div (f64_of_uint64 (DiskIO info - DiskIO l)) d)"
      using rate that by (simp add: diskRateOf_cases(3))
    obtain a q where "f64_of_uint64 (DiskIO info - DiskIO l) = Fin a" "round_f64 (a / x) = Fin q"
        "0 \<le> q"
        "uint64_of_f64 (uint64_out_of_range env)
           (f64_div (f64_of_uint64 (DiskIO info - DiskIO l)) (Fin x)) =
         (if q < 2 ^ 64 then word_of_int \<lfloor>q\<rfloor> else uint64_out_of_range env (Fin q))"
      using rate_quotient [OF x(2), of "DiskIO info - DiskIO l" "uint64_out_of_range env"] by blast
    then show ?thesis using r x(1) x0 by auto
  qed
  have none: "DiskRate info = 0" if "lastStats m1 pid = None"
    using rate that by (simp add: diskRateOf_cases(1))
  have less: "DiskRate info = 0" if "lastStats m1 pid = Some l" "DiskIO info < DiskIO l" for l
    using rate that by (simp add: diskRateOf_cases(2))
  have pidI: "PID info = pid" by (simp add: info_def sampleProc_fields(1))
  have first: "lastStats m1 pid = lastStats m pid" if "pid \<notin> set pre"
    using pollState_cache [OF that, of env m] st by simp
  have nonneg: "0 \<le> uint (DiskRate info)" by simp
  have c1: "lastStats m1 pid = None \<longrightarrow> DiskRate info = 0" using none by blast
  have c2: "\<forall>last'. lastStats m1 pid = Some last' \<longrightarrow> DiskIO info < DiskIO last' \<longrightarrow> DiskRate info = 0"
    using less by blast
  have c3: "\<forall>last'. lastStats m1 pid = Some last' \<longrightarrow> DiskIO last' \<le> DiskIO info \<longrightarrow>
         DiskRate info =
           uint64_of_f64 (uint64_out_of_range env)
             (f64_div (f64_of_uint64 (DiskIO info - DiskIO last')) d) \<and>
         (\<exists>a x q. f64_of_uint64 (DiskIO info - DiskIO last') = Fin a \<and>
            d = Fin x \<and> 0 < x \<and>
            round_f64 (a / x) = Fin q \<and> 0 \<le> q \<and>
            DiskRate info =
              (if q < 2 ^ 64 then word_of_int \<lfloor>q\<rfloor> else uint64_out_of_range env (Fin q)))"
    using quot by blast
  have c4: "pid \<notin> set pre \<longrightarrow> lastStats m1 pid = lastStats m pid" using first by blast
  have c5: "pid \<notin> set post \<longrightarrow> lastStats (snd (GetStats env m)) pid = Some info"
  proof
    assume np: "pid \<notin> set post"
    have "pollState env m (pre @ pid # post) =
        procLoop env d post (pollState env m (pre @ [pid]))"
      using procLoop_append [of env d "pre @ [pid]" post "(m, [])"]
      by (simp add: pollState_def d_def)
    then have "lastStats (fst (pollState env m (pre @ pid # post))) pid =
        lastStats (fst (pollState env m (pre @ [pid]))) pid"
      using procLoop_other [OF np] by simp
    then have "lastStats (fst (pollState env m (pre @ pid # post))) pid = Some info"
      by (simp add: step)
    then show "lastStats (snd (GetStats env m)) pid = Some info"
      by (simp add: GetStats_snd processSection_Inr [OF pids] cleanup_simps)
  qed
  show ?thesis
    unfolding d_def [symmetric]
    by (rule exI [of _ info]) (intro conjI step mem pidI c1 c2 c3 c4 c5 nonneg)
qed

text \<open>The scenario: 1000 bytes at 0 s, 3000 bytes at 1 s give the rate 2000; 2500
  bytes at 2 s give the rate 0.\<close>

theorem diskRate_of_processed_pid_witness:
  "process_Pids (onePid 1000000000 3000) = Inr ([] @ 100 # []) \<and>
   pollState (onePid 1000000000 3000) poll1 [] = (poll1, []) \<and>
   acquire (onePid 1000000000 3000) poll1 100 = Some (100, poll1) \<and>
   (\<exists>info. lastStats poll2 100 = Some info \<and> DiskIO info = 3000 \<and> DiskRate info = 2000) \<and>
   (\<exists>info. lastStats poll3 100 = Some info \<and> DiskIO info = 2500 \<and> DiskRate info = 0)"
proof -
  have h1: "process_Pids (onePid 1000000000 3000) = Inr ([] @ 100 # [])"
    by (simp add: onePid_Pids)
  have h2: "pollState (onePid 1000000000 3000) poll1 [] = (poll1, [])"
    by (simp add: pollState_def)
  have h3: "acquire (onePid 1000000000 3000) poll1 100 = Some (100, poll1)"
    by (simp add: acquire_def poll1_sample)
  from diskRate_of_processed_pid [OF h1 h2 h3] obtain info where
    i: "lastStats (snd (GetStats (onePid 1000000000 3000) poll1)) 100 = Some info"
    by auto
  have "lastStats poll2 100 = Some info" using i by (simp add: poll2_def)
  then have "\<exists>info. lastStats poll2 100 = Some info \<and> DiskIO info = 3000 \<and> DiskRate info = 2000"
    using poll2_sample by auto
  moreover have "\<exists>info. lastStats poll3 100 = Some info \<and> DiskIO info = 2500 \<and> DiskRate info = 0"
    using poll3_sample by simp
  ultimately show ?thesis using h1 h2 h3 by blast
qed

text \<open>
  C7. A poll never fails as a whole: \<^verbatim>\<open>GetStats\<close> returns a snapshot and the error nil
  whatever the provider answers. Every field of the snapshot is the answer of its own
  query, or the zero value of its type when that query fails: the system CPU, the
  memory totals, the disk list, the host information and the network counters; and in
  every entry of the four Top-N lists, read through the handle cached for its PID, the
  name, the CPU percentage, the resident memory, the disk bytes (and with them the disk
  rate) and the number of connections.
\<close>

theorem poll_never_fails:
  "snd (fst (GetStats env m)) = None \<and>
   snapshot env m = fst (fst (GetStats env m)) \<and>
   CPUUsage (snapshot env m) =
     (case cpu_Percent env of Inl e \<Rightarrow> Fin 0 | Inr cs \<Rightarrow> (case cs of [] \<Rightarrow> Fin 0 | c # cs' \<Rightarrow> c)) \<and>
   MemoryTotal (snapshot env m) =
     (case mem_VirtualMemory env of Inl e \<Rightarrow> 0 | Inr vm \<Rightarrow> vm_Total vm) \<and>
   MemoryUsed (snapshot env m) =
     (case mem_VirtualMemory env of Inl e \<Rightarrow> 0 | Inr vm \<Rightarrow> vm_Used vm) \<and>
   MemoryFree (snapshot env m) =
     (case mem_VirtualMemory env of Inl e \<Rightarrow> 0 | Inr vm \<Rightarrow> vm_Free vm) \<and>
   Disks (snapshot env m) =
     (case disk_Partitions env of Inl e \<Rightarrow> [] | Inr parts \<Rightarrow> diskLoop env parts []) \<and>
   Uptime (snapshot env m) = (case host_Info env of Inl e \<Rightarrow> 0 | Inr h \<Rightarrow> info_Uptime h) \<and>
   Hostname (snapshot env m) = (case host_Info env of Inl e \<Rightarrow> [] | Inr h \<Rightarrow> info_Hostname h) \<and>
   OS (snapshot env m) = (case host_Info env of Inl e \<Rightarrow> [] | Inr h \<Rightarrow> info_OS h) \<and>
   Platform (snapshot env m) = (case host_Info env of Inl e \<Rightarrow> [] | Inr h \<Rightarrow> info_Platform h) \<and>
   NetSent (snapshot env m) =
     (case net_IOCounters env of Inl e \<Rightarrow> 0 | Inr n \<Rightarrow> (case n of [] \<Rightarrow> 0 | c # cs \<Rightarrow> BytesSent c)) \<and>
   NetRecv (snapshot env m) =
     (case net_IOCounters env of Inl e \<Rightarrow> 0 | Inr n \<Rightarrow> (case n of [] \<Rightarrow> 0 | c # cs \<Rightarrow> BytesRecv c)) \<and>
   TopCPU (snapshot env m) =
     (case process_Pids env of
        Inl e \<Rightarrow> [] | Inr pids \<Rightarrow> getTop (snd (pollState env m pids)) lessCPU 5) \<and>
   TopMem (snapshot env m) =
     (case process_Pids env of
        Inl e \<Rightarrow> [] | Inr pids \<Rightarrow> getTop (snd (pollState env m pids)) lessMem 5) \<and>
   TopDisk (snapshot env m) =
     (case process_Pids env of
        Inl e \<Rightarrow> [] | Inr pids \<Rightarrow> getTop (snd (pollState env m pids)) lessDisk 5) \<and>
   TopNet (snapshot env m) =
     (case process_Pids env of
        Inl e \<Rightarrow> [] | Inr pids \<Rightarrow> getTop (snd (pollState env m pids)) lessNet 5) \<and>
   (\<forall>info\<in>set (TopCPU (snapshot env m)) \<union> set (TopMem (snapshot env m)) \<union>
        set (TopDisk (snapshot env m)) \<union> set (TopNet (snapshot env m)).
      \<exists>proc. procs (snd (GetStats env m)) (PID info) = Some proc \<and>
        Name info = (case proc_Name env proc of Inl e \<Rightarrow> [] | Inr n \<Rightarrow> n) \<and>
        CPU info = (case proc_CPUPercent env proc of Inl e \<Rightarrow> Fin 0 | Inr c \<Rightarrow> c) \<and>
        Mem info = (case proc_MemoryInfo env proc of Inl e \<Rightarrow> 0 | Inr mi \<Rightarrow> RSS mi) \<and>
        DiskIO info =
          (case proc_IOCounters env proc of Inl e \<Rightarrow> 0 | Inr c \<Rightarrow> ReadBytes c + WriteBytes c) \<and>
        NetConns info =
          (case proc_Connections env proc of Inl e \<Rightarrow> 0 | Inr cs \<Rightarrow> int (length cs)) \<and>
        (\<forall>e. proc_IOCounters env proc = Inl e \<longrightarrow> DiskRate info = 0))"
  by (intro conjI ballI GetStats_err snapshot_def snapshot_tops top_entry_fields;
      simp only: snapshot_fields systemSection_fields)

theorem poll_never_fails_witness:
  "snd (fst (GetStats (onePid 0 1000) (NewMonitor 0))) = None \<and>
   CPUUsage (snapshot (onePid 0 1000) (NewMonitor 0)) = Fin 0 \<and>
   Disks (snapshot (onePid 0 1000) (NewMonitor 0)) = [] \<and>
   Hostname (snapshot (onePid 0 1000) (NewMonitor 0)) = [] \<and>
   TopCPU (snapshot (onePid 0 1000) (NewMonitor 0)) =
     [\<lparr>PID = 100, Name = [], CPU = Fin 0, Mem = 0, DiskIO = 1000, DiskRate = 0, NetConns = 0\<rparr>]"
proof -
  note t = poll_never_fails [of "onePid 0 1000" "NewMonitor 0"]
  have 1: "snd (fst (GetStats (onePid 0 1000) (NewMonitor 0))) = None" using t by blast
  have "CPUUsage (snapshot (onePid 0 1000) (NewMonitor 0)) =
     (case cpu_Percent (onePid 0 1000) of Inl e \<Rightarrow> Fin 0
      | Inr cs \<Rightarrow> (case cs of [] \<Rightarrow> Fin 0 | c # cs' \<Rightarrow> c))"
    using t by blast
  then have 2: "CPUUsage (snapshot (onePid 0 1000) (NewMonitor 0)) = Fin 0"
    by (simp add: onePid_def failing_def)
  have "Disks (snapshot (onePid 0 1000) (NewMonitor 0)) =
     (case disk_Partitions (onePid 0 1000) of Inl e \<Rightarrow> []
      | Inr parts \<Rightarrow> diskLoop (onePid 0 1000) parts [])"
    using t by blast
  then have 3: "Disks (snapshot (onePid 0 1000) (NewMonitor 0)) = []"
    by (simp add: onePid_def failing_def)
  have "Hostname (snapshot (onePid 0 1000) (NewMonitor 0)) =
     (case host_Info (onePid 0 1000) of Inl e \<Rightarrow> [] | Inr h \<Rightarrow> info_Hostname h)"
    using t by blast
  then have 4: "Hostname (snapshot (onePid 0 1000) (NewMonitor 0)) = []"
    by (simp add: onePid_def failing_def)
  have "TopCPU (snapshot (onePid 0 1000) (NewMonitor 0)) =
     (case process_Pids (onePid 0 1000) of Inl e \<Rightarrow> []
      | Inr pids \<Rightarrow> getTop (snd (pollState (onePid 0 1000) (NewMonitor 0) pids)) lessCPU 5)"
    using t by blast
  then have 5: "TopCPU (snapshot (onePid 0 1000) (NewMonitor 0)) =
     [\<lparr>PID = 100, Name = [], CPU = Fin 0, Mem = 0, DiskIO = 1000, DiskRate = 0, NetConns = 0\<rparr>]"
    by (simp add: onePid_Pids first_poll_samples getTop_def SliceStable_def)
  show ?thesis by (intro conjI 1 2 3 4 5)
qed

end
